theory Spec2Isabelle
  imports Complex_Main "HOL-Library.Log_Nat"
begin

section \<open>Floating-point values\<close>

text \<open>
  Both programs declare their variables as \<^verbatim>\<open>float\<close> and compute with the
  \<^verbatim>\<open>double\<close> constants \<^verbatim>\<open>PI\<close> and \<^verbatim>\<open>CM\<close>. The model is IEEE 754 arithmetic with
  round-to-nearest, ties-to-even: \<^verbatim>\<open>float\<close> is binary32, \<^verbatim>\<open>double\<close> is binary64, and every
  operation is evaluated in the type the usual arithmetic conversions give it, with no
  excess precision. The conversions between decimal text and binary (the constants of the
  source, \<^verbatim>\<open>scanf\<close>, \<^verbatim>\<open>printf\<close>) are correctly rounded, as Annex F of the C standard
  asks and the common libraries do.

  A value is a NaN, an infinity or a finite number; each carries its sign bit, so the two
  zeros are distinct. A finite number is kept as its sign and its magnitude, an exact
  rational.
\<close>

datatype fp = FNan bool | FInf bool | FNum bool rat

fun sign_of :: "fp \<Rightarrow> bool" where
  "sign_of (FNan s) = s"
| "sign_of (FInf s) = s"
| "sign_of (FNum s m) = s"

fun is_nan :: "fp \<Rightarrow> bool" where
  "is_nan (FNan s) = True"
| "is_nan (FInf s) = False"
| "is_nan (FNum s m) = False"

text \<open>The signed rational a finite number denotes (0 for the others).\<close>

fun valof :: "fp \<Rightarrow> rat" where
  "valof (FNan s) = 0"
| "valof (FInf s) = 0"
| "valof (FNum s m) = (if s then - m else m)"

subsection \<open>Rounding\<close>

text \<open>
  The binary exponent of a positive rational:
  \<open>2 powi ilog2 q \<le> q < 2 powi (ilog2 q + 1)\<close>.
\<close>

definition ilog2 :: "rat \<Rightarrow> int" where
  "ilog2 q = (if 1 \<le> q then bitlen \<lfloor>q\<rfloor> - 1 else - bitlen (\<lceil>1 / q\<rceil> - 1))"

text \<open>The nearest integer, a tie going to the even one.\<close>

definition rne :: "rat \<Rightarrow> int" where
  "rne y = (let f = \<lfloor>y\<rfloor>; d = y - of_int f in
     if d < 1 / 2 then f
     else if 1 / 2 < d then f + 1
     else if even f then f else f + 1)"

text \<open>
  \<open>fround p emin emax s q\<close> rounds the magnitude \<open>q\<close> with sign \<open>s\<close> to the format with
  \<open>p\<close> bits of precision and exponents \<open>emin .. emax\<close>: the spacing of the format at \<open>q\<close> is
  \<open>2 powi (e - p + 1)\<close>, with \<open>e\<close> the exponent of \<open>q\<close>, held at \<open>emin\<close> in the subnormal range;
  a result that reaches \<open>2 powi (emax + 1)\<close> overflows to the infinity.
\<close>

definition fround :: "nat \<Rightarrow> int \<Rightarrow> int \<Rightarrow> bool \<Rightarrow> rat \<Rightarrow> fp" where
  "fround p emin emax s q =
     (if q \<le> 0 then FNum s 0
      else let e = max (ilog2 q) emin;
               ulp = 2 powi (e - int p + 1);
               m = of_int (rne (q / ulp)) * ulp
           in if 2 powi (emax + 1) \<le> m then FInf s else FNum s m)"

definition round64 :: "bool \<Rightarrow> rat \<Rightarrow> fp" where
  "round64 = fround 53 (- 1022) 1023"

definition round32 :: "bool \<Rightarrow> rat \<Rightarrow> fp" where
  "round32 = fround 24 (- 126) 127"

subsection \<open>The operations the programs use\<close>

text \<open>
  Multiplication and division in \<^verbatim>\<open>double\<close>. A NaN operand is passed on; the invalid
  operations give the default NaN (its sign is the platform's; these programs never reach
  one, since they divide by the non-zero constant \<^verbatim>\<open>CM\<close> only and never multiply a zero
  by an infinity).
\<close>

fun fmul :: "fp \<Rightarrow> fp \<Rightarrow> fp" where
  "fmul (FNan s) y = FNan s"
| "fmul x (FNan s) = FNan s"
| "fmul (FInf s) (FInf t) = FInf (s \<noteq> t)"
| "fmul (FInf s) (FNum t m) = (if m = 0 then FNan True else FInf (s \<noteq> t))"
| "fmul (FNum s m) (FInf t) = (if m = 0 then FNan True else FInf (s \<noteq> t))"
| "fmul (FNum s m) (FNum t n) = round64 (s \<noteq> t) (m * n)"

fun fdiv :: "fp \<Rightarrow> fp \<Rightarrow> fp" where
  "fdiv (FNan s) y = FNan s"
| "fdiv x (FNan s) = FNan s"
| "fdiv (FInf s) (FInf t) = FNan True"
| "fdiv (FInf s) (FNum t m) = FInf (s \<noteq> t)"
| "fdiv (FNum s m) (FInf t) = FNum (s \<noteq> t) 0"
| "fdiv (FNum s m) (FNum t n) =
     (if n = 0 then (if m = 0 then FNan True else FInf (s \<noteq> t))
      else round64 (s \<noteq> t) (m / n))"

text \<open>Assigning a \<^verbatim>\<open>double\<close> to a \<^verbatim>\<open>float\<close> variable rounds it to binary32.\<close>

fun to_float :: "fp \<Rightarrow> fp" where
  "to_float (FNan s) = FNan s"
| "to_float (FInf s) = FInf s"
| "to_float (FNum s m) = round32 s m"

text \<open>The comparison \<^verbatim>\<open>x != 0\<close>: true of a NaN, false of both zeros.\<close>

fun fne0 :: "fp \<Rightarrow> bool" where
  "fne0 (FNan s) = True"
| "fne0 (FInf s) = True"
| "fne0 (FNum s m) = (m \<noteq> 0)"

text \<open>The comparison \<^verbatim>\<open>x >= 0\<close>: false of a NaN, true of both zeros.\<close>

fun fge0 :: "fp \<Rightarrow> bool" where
  "fge0 (FNan s) = False"
| "fge0 (FInf s) = (\<not> s)"
| "fge0 (FNum s m) = (\<not> s \<or> m = 0)"

text \<open>An integer constant converted to \<^verbatim>\<open>double\<close>.\<close>

definition of_int_const :: "int \<Rightarrow> fp" where
  "of_int_const i = round64 (i < 0) (of_int \<bar>i\<bar>)"

text \<open>A decimal constant of the source text, converted to \<^verbatim>\<open>double\<close>.\<close>

definition of_decimal :: "rat \<Rightarrow> fp" where
  "of_decimal q = round64 (q < 0) \<bar>q\<bar>"

section \<open>The constants and the formulas\<close>

text \<open>\<^verbatim>\<open>#define PI 3.14159\<close> and \<^verbatim>\<open>#define CM 2.54\<close>.\<close>

definition PI :: fp where
  "PI = of_decimal (314159 / 100000)"

definition CM :: fp where
  "CM = of_decimal (254 / 100)"

text \<open>
  The values the constants have as \<^verbatim>\<open>double\<close>s (facts \<open>CM_val\<close>, \<open>PI_val\<close> and
  \<open>two_PI_val\<close> below), and the two factors that bound one rounding to \<^verbatim>\<open>double\<close>.
\<close>

abbreviation cm64 :: rat where
  "cm64 \<equiv> 2859785763380265 / 1125899906842624"

abbreviation pi64 :: rat where
  "pi64 \<equiv> 3537115888337719 / 1125899906842624"

abbreviation two_pi64 :: rat where
  "two_pi64 \<equiv> 3537115888337719 / 562949953421312"

abbreviation lo64 :: rat where
  "lo64 \<equiv> 1 - 2 powi (- 53)"

abbreviation hi64 :: rat where
  "hi64 \<equiv> 1 + 2 powi (- 53)"

text \<open>\<^verbatim>\<open>a = PI * (r/CM) * (r/CM);\<close> (both programs, line 14).\<close>

definition area :: "fp \<Rightarrow> fp" where
  "area r = to_float (fmul (fmul PI (fdiv r CM)) (fdiv r CM))"

text \<open>\<^verbatim>\<open>c = 2 * PI * (r/CM);\<close> (the second program, line 15).\<close>

definition circumference :: "fp \<Rightarrow> fp" where
  "circumference r = to_float (fmul (fmul (of_int_const 2) PI) (fdiv r CM))"

text \<open>The conversion to inches, the subexpression \<^verbatim>\<open>(r/CM)\<close> of both lines.\<close>

definition inches :: "fp \<Rightarrow> fp" where
  "inches r = fdiv r CM"

subsection \<open>The formulas as the specification words them\<close>

text \<open>
  These follow the specification, over the rationals and with the decimal constants
  themselves; the theorems below compare what the programs compute with them.
  \<open>area_spec\<close> is ``area = PI * r_in^2'' with ``r_in = r_cm / 2.54'', \<open>circumference_spec\<close>
  is ``circumference = 2 * PI * r_in'', and \<open>back_to_cm\<close> is the ``r_in * 2.54'' of the
  round-trip property, evaluated in \<^verbatim>\<open>double\<close> as the programs' own arithmetic is.
\<close>

definition area_spec :: "rat \<Rightarrow> rat" where
  "area_spec r_cm = 314159 / 100000 * (r_cm / (254 / 100)) ^ 2"

definition circumference_spec :: "rat \<Rightarrow> rat" where
  "circumference_spec r_cm = 2 * (314159 / 100000) * (r_cm / (254 / 100))"

definition back_to_cm :: "fp \<Rightarrow> fp" where
  "back_to_cm r_in = fmul r_in CM"

section \<open>Standard input and output\<close>

text \<open>
  Standard input is the sequence of items the \<^verbatim>\<open>%f\<close> directive meets: a numeral it
  accepts (a signed decimal \<open>n \<times> 10\<^sup>e\<close>, an infinity or a NaN) or text it rejects.
\<close>

datatype numeral_lit = Dec bool nat int | InfLit bool | NanLit bool

datatype token = Num numeral_lit | Junk

text \<open>The conversion of an accepted numeral to \<^verbatim>\<open>float\<close>, correctly rounded.\<close>

fun strtof :: "numeral_lit \<Rightarrow> fp" where
  "strtof (Dec s n e) = round32 s (of_nat n * 10 powi e)"
| "strtof (InfLit s) = FInf s"
| "strtof (NanLit s) = FNan s"

text \<open>
  \<^verbatim>\<open>scanf("%f", &r)\<close>: at the end of input, and at text that is no numeral, nothing is
  stored and nothing is consumed; otherwise the numeral is consumed and its value stored.
  Neither program looks at the value \<^verbatim>\<open>scanf\<close> returns.
\<close>

fun scanf_f :: "fp \<Rightarrow> token list \<Rightarrow> fp \<times> token list" where
  "scanf_f r [] = (r, [])"
| "scanf_f r (Junk # inp) = (r, Junk # inp)"
| "scanf_f r (Num l # inp) = (strtof l, inp)"

subsection \<open>Formatted output\<close>

definition digit_char :: "nat \<Rightarrow> char" where
  "digit_char d = ''0123456789'' ! d"

fun dec_digits :: "nat \<Rightarrow> string" where
  "dec_digits n = (if n < 10 then [digit_char n]
                   else dec_digits (n div 10) @ [digit_char (n mod 10)])"

declare dec_digits.simps [simp del]

definition is_digit :: "char \<Rightarrow> bool" where
  "is_digit c = (c \<in> set ''0123456789'')"

text \<open>The magnitude \<open>m\<close> in fixed notation with \<open>p\<close> digits after the point.\<close>

definition fixed :: "nat \<Rightarrow> rat \<Rightarrow> string" where
  "fixed p m =
     (let n = nat (rne (m * 10 ^ p));
          frac = dec_digits (n mod 10 ^ p)
      in dec_digits (n div 10 ^ p) @
         (if p = 0 then [] else ''.'' @ replicate (p - length frac) (CHR ''0'') @ frac))"

definition pad :: "nat \<Rightarrow> string \<Rightarrow> string" where
  "pad w s = replicate (w - length s) (CHR '' '') @ s"

definition sign_str :: "bool \<Rightarrow> string" where
  "sign_str s = (if s then ''-'' else [])"

text \<open>
  The directive \<^verbatim>\<open>%w.pf\<close> applied to a \<^verbatim>\<open>float\<close> argument (promoted to \<^verbatim>\<open>double\<close>, which
  changes no value): the exact value rounded to \<open>p\<close> decimals, right-justified in \<open>w\<close>
  columns.
\<close>

fun printf_f :: "nat \<Rightarrow> nat \<Rightarrow> fp \<Rightarrow> string" where
  "printf_f w p (FNan s) = pad w (sign_str s @ ''nan'')"
| "printf_f w p (FInf s) = pad w (sign_str s @ ''inf'')"
| "printf_f w p (FNum s m) = pad w (sign_str s @ fixed p m)"

definition nl :: string where
  "nl = [CHR 0x0A]"

definition prompt :: string where
  "prompt = ''Enter radius (in cm):'' @ nl"

definition area_line :: "fp \<Rightarrow> string" where
  "area_line a = ''Circle's area is '' @ printf_f 3 2 a @ '' (sq in).'' @ nl"

definition circ_line :: "fp \<Rightarrow> string" where
  "circ_line c = ''Its circumference is '' @ printf_f 3 2 c @ '' (in).'' @ nl"

section \<open>The two programs\<close>

record outcome =
  stdout :: string
  stdin :: "token list"
  status :: int

text \<open>
  \<^verbatim>\<open>ex1.c\<close>. The variable \<^verbatim>\<open>r\<close> is not initialised: \<open>r0\<close> is the value it happens to hold,
  which the program still has after a \<^verbatim>\<open>scanf\<close> that stores nothing. Control reaches the
  closing brace of \<^verbatim>\<open>main\<close>, which returns 0.
\<close>

definition main1 :: "fp \<Rightarrow> token list \<Rightarrow> outcome" where
  "main1 r0 inp =
     (let out = prompt;
          (r, inp') = scanf_f r0 inp;
          a = area r;
          out = out @ area_line a
      in \<lparr>stdout = out, stdin = inp', status = 0\<rparr>)"

text \<open>
  \<^verbatim>\<open>ex3.c\<close>. The loop tests \<^verbatim>\<open>r != 0\<close> first, on the uninitialised \<^verbatim>\<open>r\<close>. It need not
  end: when no numeral is left and \<^verbatim>\<open>r\<close> is not zero, \<^verbatim>\<open>r\<close> never changes again.
\<close>

partial_function (option) loop3 :: "fp \<Rightarrow> token list \<Rightarrow> string \<Rightarrow> outcome option" where
  "loop3 r inp out =
     (if fne0 r then
        (case scanf_f r inp of (r', inp') \<Rightarrow>
           loop3 r' inp'
             (out @ prompt @ area_line (area r') @ circ_line (circumference r')))
      else Some \<lparr>stdout = out, stdin = inp, status = 0\<rparr>)"

declare loop3.simps [code]

definition main3 :: "fp \<Rightarrow> token list \<Rightarrow> outcome option" where
  "main3 r0 inp = loop3 r0 inp []"

text \<open>
  What one pass of the loop writes when \<^verbatim>\<open>scanf\<close> reads the numeral \<open>l\<close> (lines 11, 17
  and 18 of \<^verbatim>\<open>ex3.c\<close>), a shorthand for the statements about whole runs.
\<close>

abbreviation pass_text :: "numeral_lit \<Rightarrow> string" where
  "pass_text l \<equiv> prompt @ area_line (area (strtof l)) @ circ_line (circumference (strtof l))"

section \<open>Facts about rounding\<close>

lemma ilog2_lower: "0 < q \<Longrightarrow> 2 powi ilog2 q \<le> q"
proof (cases "1 \<le> q")
  case True
  define n where "n = \<lfloor>q\<rfloor>"
  have n1: "1 \<le> n" using True by (simp add: n_def)
  have b: "2 ^ nat (bitlen n - 1) \<le> n" using bitlen_bounds[of n] n1 by simp
  have bl: "1 \<le> bitlen n" using n1 bitlen_ge_iff_power[of 1 n] by simp
  have "2 powi ilog2 q = (2::rat) ^ nat (bitlen n - 1)"
    using True bl by (simp add: ilog2_def n_def power_int_nonneg_exp)
  also have "\<dots> = of_int (2 ^ nat (bitlen n - 1))" by simp
  also have "\<dots> \<le> of_int n" using b by (simp only: of_int_le_iff)
  also have "\<dots> \<le> q" by (simp add: n_def)
  finally show ?thesis .
next
  case False
  assume q: "0 < q"
  define j where "j = \<lceil>1 / q\<rceil> - 1"
  have y: "1 < 1 / q" using False q by simp
  have j1: "1 \<le> j" using y by (simp add: j_def less_ceiling_iff)
  have b: "j < 2 ^ nat (bitlen j)" using bitlen_bounds[of j] j1 by simp
  have "1 / q \<le> of_int (j + 1)" by (simp add: j_def)
  also have "\<dots> \<le> of_int (2 ^ nat (bitlen j))" using b by (simp only: of_int_le_iff)
  finally have "1 / q \<le> 2 ^ nat (bitlen j)" by simp
  hence "1 / 2 ^ nat (bitlen j) \<le> q" using q by (simp add: field_simps)
  moreover have "2 powi ilog2 q = 1 / (2::rat) ^ nat (bitlen j)"
    using False by (simp add: ilog2_def j_def power_int_minus_divide power_int_nonneg_exp bitlen_nonneg)
  ultimately show ?thesis by simp
qed

lemma ilog2_upper: "0 < q \<Longrightarrow> q < 2 powi (ilog2 q + 1)"
proof (cases "1 \<le> q")
  case True
  define n where "n = \<lfloor>q\<rfloor>"
  have n1: "1 \<le> n" using True by (simp add: n_def)
  have b: "n < 2 ^ nat (bitlen n)" using bitlen_bounds[of n] n1 by simp
  have bl: "1 \<le> bitlen n" using n1 bitlen_ge_iff_power[of 1 n] by simp
  have "q < of_int (n + 1)" using floor_correct[of q] by (simp add: n_def)
  also have "\<dots> \<le> of_int (2 ^ nat (bitlen n))" using b by (simp only: of_int_le_iff)
  also have "\<dots> = (2::rat) ^ nat (bitlen n)" by simp
  also have "\<dots> = 2 powi (ilog2 q + 1)"
    using True bl by (simp add: ilog2_def n_def power_int_nonneg_exp)
  finally show ?thesis .
next
  case False
  assume q: "0 < q"
  define j where "j = \<lceil>1 / q\<rceil> - 1"
  have y: "1 < 1 / q" using False q by simp
  have j1: "1 \<le> j" using y by (simp add: j_def less_ceiling_iff)
  have b: "2 ^ nat (bitlen j - 1) \<le> j" using bitlen_bounds[of j] j1 by simp
  have bl: "1 \<le> bitlen j" using j1 bitlen_ge_iff_power[of 1 j] by simp
  have "(2::rat) ^ nat (bitlen j - 1) = of_int (2 ^ nat (bitlen j - 1))" by simp
  also have "\<dots> \<le> of_int j" using b by (simp only: of_int_le_iff)
  also have "\<dots> < 1 / q" using ceiling_correct[of "1 / q"] by (simp add: j_def)
  finally have "(2::rat) ^ nat (bitlen j - 1) < 1 / q" .
  hence "q < 1 / 2 ^ nat (bitlen j - 1)" using q by (simp add: field_simps)
  moreover have "2 powi (ilog2 q + 1) = 1 / (2::rat) ^ nat (bitlen j - 1)"
  proof -
    have "ilog2 q + 1 = - (bitlen j - 1)" using False by (simp add: ilog2_def j_def)
    thus ?thesis using bl by (simp only: power_int_minus_divide power_int_nonneg_exp) 
  qed
  ultimately show ?thesis by simp
qed

lemma powi2_less_iff: "((2::rat) powi a < 2 powi b) = (a < b)"
  by (metis power_int_strict_increasing power_int_increasing not_less one_le_numeral one_less_numeral_iff semiring_norm(76) less_le_not_le)

lemma powi2_le_iff: "((2::rat) powi a \<le> 2 powi b) = (a \<le> b)"
  using powi2_less_iff[of b a] by (auto simp: not_less[symmetric])

lemma powi2_add: "(2::rat) powi (a + b) = 2 powi a * 2 powi b"
  by (simp add: power_int_add)

lemma powi2_diff: "(2::rat) powi (a - b) = 2 powi a * 2 powi (- b)"
  using powi2_add[of a "- b"] by simp

lemma ilog2_unique:
  assumes "2 powi e \<le> q" and "q < 2 powi (e + 1)"
  shows "ilog2 q = e"
proof -
  have q: "0 < q" using assms(1) zero_less_power_int[of "2::rat" e] by linarith
  have "(2::rat) powi e < 2 powi (ilog2 q + 1)" using assms(1) ilog2_upper[OF q] by linarith
  hence 1: "e < ilog2 q + 1" by (simp only: powi2_less_iff)
  have "(2::rat) powi ilog2 q < 2 powi (e + 1)" using assms(2) ilog2_lower[OF q] by linarith
  hence 2: "ilog2 q < e + 1" by (simp only: powi2_less_iff)
  show ?thesis using 1 2 by linarith
qed

lemma rne_err: "\<bar>of_int (rne y) - y\<bar> \<le> 1 / 2"
proof -
  have "of_int \<lfloor>y\<rfloor> \<le> y" "y < of_int \<lfloor>y\<rfloor> + 1" by linarith+
  thus ?thesis by (auto simp: rne_def Let_def)
qed

lemma rne_unique: "\<bar>y - of_int n\<bar> < 1 / 2 \<Longrightarrow> rne y = n"
proof -
  assume a: "\<bar>y - of_int n\<bar> < 1 / 2"
  have "\<bar>of_int (rne y) - (of_int n :: rat)\<bar> < 1" using a rne_err[of y] by linarith
  hence "\<bar>of_int (rne y - n) :: rat\<bar> < of_int 1" by simp
  hence "\<bar>rne y - n\<bar> < 1" by (simp only: of_int_abs[symmetric] of_int_less_iff)
  thus ?thesis by linarith
qed

lemma rne_nonneg: "0 \<le> y \<Longrightarrow> 0 \<le> rne y"
  by (auto simp: rne_def Let_def)

subsection \<open>Evaluating a rounding from its exponent and its integer\<close>

lemma fround_zero: "fround p emin emax s 0 = FNum s 0"
  by (simp add: fround_def)

lemma round32_zero: "round32 s 0 = FNum s 0"
  by (simp add: round32_def fround_zero)

lemma fround_eval:
  assumes "2 powi e \<le> q" and "q < 2 powi (e + 1)"
    and "u = 2 powi (max e emin - int p + 1)"
    and "\<bar>q / u - of_int n\<bar> < 1 / 2"
    and "of_int n * u < 2 powi (emax + 1)"
  shows "fround p emin emax s q = FNum s (of_int n * u)"
proof -
  have q: "0 < q" using assms(1) zero_less_power_int[of "2::rat" e] by linarith
  have e: "ilog2 q = e" using assms(1,2) by (rule ilog2_unique)
  have n: "rne (q / u) = n" using assms(4) by (rule rne_unique)
  show ?thesis using q e n assms(3,5) by (simp add: fround_def Let_def)
qed

lemma fround_eval_inf:
  assumes "2 powi e \<le> q" and "q < 2 powi (e + 1)"
    and "u = 2 powi (max e emin - int p + 1)"
    and "\<bar>q / u - of_int n\<bar> < 1 / 2"
    and "2 powi (emax + 1) \<le> of_int n * u"
  shows "fround p emin emax s q = FInf s"
proof -
  have q: "0 < q" using assms(1) zero_less_power_int[of "2::rat" e] by linarith
  have e: "ilog2 q = e" using assms(1,2) by (rule ilog2_unique)
  have n: "rne (q / u) = n" using assms(4) by (rule rne_unique)
  show ?thesis using q e n assms(3,5) by (simp add: fround_def Let_def)
qed

subsection \<open>The error of a rounding\<close>

lemma half_ulp_normal:
  assumes "2 powi emin \<le> q"
  shows "2 powi (max (ilog2 q) emin - int p) \<le> q * 2 powi (- int p)"
proof -
  have q: "0 < q" using assms zero_less_power_int[of "2::rat" emin] by linarith
  have "(2::rat) powi emin < 2 powi (ilog2 q + 1)" using assms ilog2_upper[OF q] by linarith
  hence "emin \<le> ilog2 q" by (simp only: powi2_less_iff)
  hence "2 powi (max (ilog2 q) emin - int p) = (2::rat) powi ilog2 q * 2 powi (- int p)"
    by (simp add: max_def powi2_diff)
  also have "\<dots> \<le> q * 2 powi (- int p)"
    using ilog2_lower[OF q] by (intro mult_right_mono) simp_all
  finally show ?thesis .
qed

lemma half_ulp_any:
  assumes "0 < q"
  shows "2 powi (max (ilog2 q) emin - int p) \<le> q * 2 powi (- int p) + 2 powi (emin - int p)"
proof (cases "emin \<le> ilog2 q")
  case True
  hence "2 powi (max (ilog2 q) emin - int p) = (2::rat) powi ilog2 q * 2 powi (- int p)"
    by (simp add: max_def powi2_diff)
  also have "\<dots> \<le> q * 2 powi (- int p)"
    using ilog2_lower[OF assms] by (intro mult_right_mono) simp_all
  also have "\<dots> \<le> q * 2 powi (- int p) + 2 powi (emin - int p)" by simp
  finally show ?thesis .
next
  case False
  hence "2 powi (max (ilog2 q) emin - int p) = (2::rat) powi (emin - int p)"
    by (simp add: max_def)
  moreover have "0 \<le> q * 2 powi (- int p)" using assms by simp
  ultimately show ?thesis by linarith
qed

lemma fround_cases:
  assumes "0 < q"
  obtains (inf) "fround p emin emax s q = FInf s"
      and "2 powi (emax + 1) \<le> q + 2 powi (max (ilog2 q) emin - int p)"
    | (fin) m where "fround p emin emax s q = FNum s m"
      and "\<bar>m - q\<bar> \<le> 2 powi (max (ilog2 q) emin - int p)"
      and "0 \<le> m" and "m < 2 powi (emax + 1)"
      and "m = 0 \<or> 2 powi (emin - int p + 1) \<le> m"
proof -
  define e where "e = max (ilog2 q) emin"
  define u :: rat where "u = 2 powi (e - int p + 1)"
  define n where "n = rne (q / u)"
  define m where "m = of_int n * u"
  have u: "0 < u" by (simp add: u_def)
  have half: "u / 2 = 2 powi (e - int p)"
    using powi2_add[of "e - int p" 1] by (simp add: u_def)
  have "\<bar>of_int n - q / u\<bar> \<le> 1 / 2" unfolding n_def by (rule rne_err)
  hence "\<bar>of_int n - q / u\<bar> * u \<le> 1 / 2 * u" using u by (intro mult_right_mono) simp_all
  moreover have "\<bar>of_int n - q / u\<bar> * u = \<bar>m - q\<bar>"
  proof -
    have "\<bar>of_int n - q / u\<bar> * u = \<bar>(of_int n - q / u) * u\<bar>" using u by (simp add: abs_mult)
    also have "(of_int n - q / u) * u = m - q" using u by (simp add: m_def field_simps)
    finally show ?thesis .
  qed
  ultimately have err: "\<bar>m - q\<bar> \<le> 2 powi (e - int p)" using half by simp
  have n0: "0 \<le> n" unfolding n_def using assms u by (intro rne_nonneg) simp
  hence m0: "0 \<le> m" using u by (simp add: m_def)
  have low: "m = 0 \<or> 2 powi (emin - int p + 1) \<le> m"
  proof (cases "n = 0")
    case True
    thus ?thesis by (simp add: m_def)
  next
    case False
    hence "1 \<le> n" using n0 by linarith
    hence "(1::rat) \<le> of_int n" by simp
    hence "1 * u \<le> of_int n * u" using u by (intro mult_right_mono) simp_all
    moreover have "2 powi (emin - int p + 1) \<le> u"
      unfolding u_def by (simp only: powi2_le_iff) (simp add: e_def)
    ultimately show ?thesis by (simp add: m_def)
  qed
  have eq: "fround p emin emax s q = (if 2 powi (emax + 1) \<le> m then FInf s else FNum s m)"
    using assms by (simp add: fround_def Let_def e_def u_def n_def m_def)
  show thesis
  proof (cases "2 powi (emax + 1) \<le> m")
    case True
    have "m \<le> q + 2 powi (e - int p)" using err by linarith
    with True have "2 powi (emax + 1) \<le> q + 2 powi (e - int p)" by linarith
    thus thesis using True eq inf by (simp add: e_def)
  next
    case False
    thus thesis using eq err m0 low fin[of m] by (simp add: e_def)
  qed
qed

lemma round64_normal:
  assumes "2 powi (- 1022) \<le> q" and "q \<le> 2 powi 1023"
  obtains m where "round64 s q = FNum s m"
    and "q * (1 - 2 powi (- 53)) \<le> m" and "m \<le> q * (1 + 2 powi (- 53))"
proof -
  have q: "0 < q" using assms(1) zero_less_power_int[of "2::rat" "- 1022"] by linarith
  have h: "2 powi (max (ilog2 q) (- 1022) - int 53) \<le> q * 2 powi (- int 53)"
    using assms(1) by (rule half_ulp_normal)
  from q show thesis
  proof (cases rule: fround_cases[where p = 53 and emin = "- 1022" and emax = 1023 and s = s])
    case inf
    hence "2 powi (1023 + 1) \<le> q + q * 2 powi (- int 53)" using h by linarith
    also have "\<dots> = q * (1 + 2 powi (- 53))" by (simp add: algebra_simps)
    also have "\<dots> \<le> 2 powi 1023 * (1 + 2 powi (- 53))"
      using assms(2) by (intro mult_right_mono) simp_all
    also have "\<dots> < 2 powi 1023 * 2" by (intro mult_strict_left_mono) simp_all
    also have "\<dots> = 2 powi (1023 + 1)" by (simp only: powi2_add) simp
    finally show thesis by simp
  next
    case (fin m)
    have "\<bar>m - q\<bar> \<le> q * 2 powi (- 53)" using fin(2) h by simp
    hence "q - q * 2 powi (- 53) \<le> m" "m \<le> q + q * 2 powi (- 53)"
      by linarith+
    hence "q * (1 - 2 powi (- 53)) \<le> m" "m \<le> q * (1 + 2 powi (- 53))"
      by (simp_all only: right_diff_distrib distrib_left mult_1_right)
    thus thesis using fin(1) that by (simp add: round64_def)
  qed
qed

lemma round32_any:
  assumes "0 < q"
  obtains (inf) "round32 s q = FInf s"
      and "2 powi 128 \<le> q * (1 + 2 powi (- 24)) + 2 powi (- 150)"
    | (fin) m where "round32 s q = FNum s m"
      and "\<bar>m - q\<bar> \<le> q * 2 powi (- 24) + 2 powi (- 150)"
proof -
  have h: "2 powi (max (ilog2 q) (- 126) - int 24) \<le> q * 2 powi (- int 24) + 2 powi (- 126 - int 24)"
    using assms by (rule half_ulp_any)
  from assms show thesis
  proof (cases rule: fround_cases[where p = 24 and emin = "- 126" and emax = 127 and s = s])
    case inf
    hence "2 powi 128 \<le> q * (1 + 2 powi (- 24)) + 2 powi (- 150)"
      using h by (simp add: algebra_simps)
    thus thesis using inf(1) that(1) by (simp add: round32_def)
  next
    case (fin m)
    have "\<bar>m - q\<bar> \<le> q * 2 powi (- 24) + 2 powi (- 150)" using fin(2) h by simp
    thus thesis using fin(1) that(2) by (simp add: round32_def)
  qed
qed

lemma round32_range:
  assumes "round32 s q = FNum t m"
  shows "t = s \<and> (m = 0 \<or> (2 powi (- 149) \<le> m \<and> m < 2 powi 128))"
proof (cases "0 < q")
  case False
  with assms show ?thesis by (simp add: round32_def fround_def)
next
  case True
  from True show ?thesis
  proof (cases rule: fround_cases[where p = 24 and emin = "- 126" and emax = 127 and s = s])
    case inf
    with assms show ?thesis by (simp add: round32_def)
  next
    case (fin m')
    with assms have "t = s" "m' = m" by (simp_all add: round32_def)
    with fin(4,5) show ?thesis by simp
  qed
qed

lemma strtof_range:
  assumes "strtof l = FNum s m"
  shows "m = 0 \<or> (2 powi (- 149) \<le> m \<and> m < 2 powi 128)"
proof (cases l)
  case (Dec t n e)
  with assms show ?thesis using round32_range by auto
qed (use assms in simp_all)

lemma fround_shape:
  "(fround p emin emax s q = FInf s \<and> 0 < q) \<or>
   (\<exists>m. fround p emin emax s q = FNum s m \<and> (if q \<le> 0 then m = 0 else True))"
proof (cases "0 < q")
  case False
  thus ?thesis by (simp add: fround_def)
next
  case True
  thus ?thesis
    by (cases rule: fround_cases[where p = p and emin = emin and emax = emax and s = s])
      (use True in auto)
qed

lemma round64_shape:
  "(round64 s q = FInf s \<and> 0 < q) \<or>
   (\<exists>m. round64 s q = FNum s m \<and> (if q \<le> 0 then m = 0 else True))"
  unfolding round64_def by (rule fround_shape)

lemma round32_shape:
  "(round32 s q = FInf s \<and> 0 < q) \<or>
   (\<exists>m. round32 s q = FNum s m \<and> (if q \<le> 0 then m = 0 else True))"
  unfolding round32_def by (rule fround_shape)

lemma to_float_shape:
  "to_float (FNum s u) = FInf s \<or> (\<exists>a. to_float (FNum s u) = FNum s a)"
  using round32_shape[of s u] by auto

section \<open>Facts about formatted output\<close>

lemma digit_char_is_digit: "d < 10 \<Longrightarrow> is_digit (digit_char d)"
proof -
  assume "d < 10"
  hence "d \<in> {0, 1, 2, 3, 4, 5, 6, 7, 8, 9}" by auto
  thus ?thesis by (auto simp: is_digit_def digit_char_def)
qed

lemma dec_digits_digits: "c \<in> set (dec_digits n) \<Longrightarrow> is_digit c"
proof (induction n arbitrary: c rule: dec_digits.induct)
  case (1 n)
  show ?case
  proof (cases "n < 10")
    case True
    with "1.prems" have "c = digit_char n"
      by (subst (asm) dec_digits.simps) simp
    with True show ?thesis by (simp add: digit_char_is_digit)
  next
    case False
    with "1.prems" have "c \<in> set (dec_digits (n div 10)) \<or> c = digit_char (n mod 10)"
      by (subst (asm) dec_digits.simps) auto
    thus ?thesis using "1.IH"[OF False] by (auto simp: digit_char_is_digit)
  qed
qed

lemma dec_digits_nonempty: "dec_digits n \<noteq> []"
  by (subst dec_digits.simps) simp

lemma dec_digits_lt10: "n < 10 \<Longrightarrow> dec_digits n = [digit_char n]"
  by (subst dec_digits.simps) simp

lemma dec_digits_ge10:
  "10 \<le> n \<Longrightarrow> dec_digits n = dec_digits (n div 10) @ [digit_char (n mod 10)]"
  by (subst dec_digits.simps) simp

lemma two_digits:
  assumes "k < 100"
  shows "replicate (2 - length (dec_digits k)) (CHR ''0'') @ dec_digits k
       = [digit_char (k div 10), digit_char (k mod 10)]"
proof (cases "k < 10")
  case True
  thus ?thesis by (simp add: dec_digits_lt10 digit_char_def)
next
  case False
  hence "10 \<le> k" and "k div 10 < 10" using assms by auto
  thus ?thesis by (simp add: dec_digits_ge10 dec_digits_lt10)
qed

lemma fixed_2_shape:
  "fixed 2 m = dec_digits (nat (rne (m * 100)) div 100) @
      [CHR ''.'', digit_char (nat (rne (m * 100)) mod 100 div 10),
       digit_char (nat (rne (m * 100)) mod 10)]"
proof -
  define n where "n = nat (rne (m * 100))"
  have "n mod 100 < 100" by simp
  from two_digits[OF this] have "fixed 2 m = dec_digits (n div 100) @
      [CHR ''.'', digit_char (n mod 100 div 10), digit_char (n mod 100 mod 10)]"
    by (simp add: fixed_def Let_def n_def)
  moreover have "n mod 100 mod 10 = n mod 10" by (simp add: mod_mod_cancel)
  ultimately show ?thesis by (simp add: n_def)
qed

lemma fixed_2_eval:
  assumes "\<bar>m * 100 - of_nat k\<bar> < 1 / 2"
  shows "fixed 2 m = dec_digits (k div 100) @ [CHR ''.'', digit_char (k mod 100 div 10), digit_char (k mod 10)]"
proof -
  have "rne (m * 100) = int k" using assms by (intro rne_unique) simp
  thus ?thesis by (simp add: fixed_2_shape)
qed

lemma fixed_2_zero: "fixed 2 0 = ''0.00''"
  by (simp add: fixed_def rne_def dec_digits.simps digit_char_def)

lemma fixed_2_digits:
  "\<exists>ip d1 d2. fixed 2 m = ip @ [CHR ''.'', d1, d2] \<and> ip \<noteq> [] \<and> list_all is_digit ip \<and>
     is_digit d1 \<and> is_digit d2"
proof (intro exI conjI)
  show "fixed 2 m = dec_digits (nat (rne (m * 100)) div 100) @
      [CHR ''.'', digit_char (nat (rne (m * 100)) mod 100 div 10),
       digit_char (nat (rne (m * 100)) mod 10)]"
    by (rule fixed_2_shape)
  show "dec_digits (nat (rne (m * 100)) div 100) \<noteq> []" by (rule dec_digits_nonempty)
  show "list_all is_digit (dec_digits (nat (rne (m * 100)) div 100))"
    by (simp add: list_all_iff dec_digits_digits)
  show "is_digit (digit_char (nat (rne (m * 100)) mod 100 div 10))"
    by (rule digit_char_is_digit) simp
  show "is_digit (digit_char (nat (rne (m * 100)) mod 10))"
    by (rule digit_char_is_digit) simp
qed

lemma pad_long: "w \<le> length s \<Longrightarrow> pad w s = s"
  by (simp add: pad_def)

lemma printf_finite:
  "printf_f 3 2 (FNum s m) = sign_str s @ fixed 2 m"
proof -
  have "dec_digits (nat (rne (m * 100)) div 100) \<noteq> []" by (rule dec_digits_nonempty)
  hence "1 \<le> length (dec_digits (nat (rne (m * 100)) div 100))"
    by (cases "dec_digits (nat (rne (m * 100)) div 100)") simp_all
  hence "3 \<le> length (sign_str s @ fixed 2 m)" by (simp add: fixed_2_shape)
  thus ?thesis by (simp add: pad_long)
qed

lemma printf_314: "printf_f 3 2 (FNum False (13176783 / 4194304)) = ''3.14''"
  unfolding printf_finite 
  by (subst fixed_2_eval[where k = 314]) (simp_all add: sign_str_def dec_digits.simps digit_char_def)

lemma printf_1257: "printf_f 3 2 (FNum False (13176783 / 1048576)) = ''12.57''"
  unfolding printf_finite 
  by (subst fixed_2_eval[where k = 1257]) (simp_all add: sign_str_def dec_digits.simps digit_char_def)

lemma printf_628: "printf_f 3 2 (FNum False (13176783 / 2097152)) = ''6.28''"
  unfolding printf_finite
  by (subst fixed_2_eval[where k = 628]) (simp_all add: sign_str_def dec_digits.simps digit_char_def)

lemma printf_inf: "printf_f 3 2 (FInf False) = ''inf''"
  by (simp add: pad_def sign_str_def)

lemma is_digit_not_nl: "is_digit c \<Longrightarrow> c \<noteq> CHR 0x0A"
  by (auto simp: is_digit_def)

lemma fixed_no_nl: "CHR 0x0A \<notin> set (fixed p m)"
  by (auto simp: fixed_def Let_def dest!: dec_digits_digits is_digit_not_nl)

lemma printf_f_no_nl: "CHR 0x0A \<notin> set (printf_f w p x)"
  by (cases x) (auto simp: pad_def sign_str_def fixed_no_nl)

lemma count_nl_prompt: "count_list prompt (CHR 0x0A) = 1"
  by (simp add: prompt_def nl_def)

lemma count_nl_area_line: "count_list (area_line a) (CHR 0x0A) = 1"
  using printf_f_no_nl[of 3 2 a] by (simp add: area_line_def nl_def count_list_0_iff)

section \<open>The constants, and the radius zero\<close>

lemma CM_val: "CM = FNum False (2859785763380265 / 1125899906842624)"
proof -
  have "fround 53 (- 1022) 1023 False (254 / 100) = FNum False (of_int 5719571526760530 * 2 powi (- 51))"
    by (rule fround_eval[where e = 1]) simp_all
  thus ?thesis by (simp add: CM_def of_decimal_def round64_def)
qed

lemma PI_val: "PI = FNum False (3537115888337719 / 1125899906842624)"
proof -
  have "fround 53 (- 1022) 1023 False (314159 / 100000) = FNum False (of_int 7074231776675438 * 2 powi (- 51))"
    by (rule fround_eval[where e = 1]) simp_all
  thus ?thesis by (simp add: PI_def of_decimal_def round64_def)
qed

lemma two_PI_val: "fmul (of_int_const 2) PI = FNum False (3537115888337719 / 562949953421312)"
proof -
  have 1: "fround 53 (- 1022) 1023 False 2 = FNum False (of_int 4503599627370496 * 2 powi (- 51))"
    by (rule fround_eval[where e = 1]) simp_all
  have 2: "fround 53 (- 1022) 1023 False (2 * (3537115888337719 / 1125899906842624))
     = FNum False (of_int 7074231776675438 * 2 powi (- 50))"
    by (rule fround_eval[where e = 2]) simp_all
  show ?thesis using 1 2 by (simp add: of_int_const_def PI_val round64_def)
qed

lemma fdiv_zero_CM: "fdiv (FNum s 0) CM = FNum s 0"
  by (simp add: CM_val round64_def fround_zero)

lemma inches_zero: "inches (FNum s 0) = FNum s 0"
  by (simp add: inches_def fdiv_zero_CM)

lemma area_zero: "area (FNum s 0) = FNum False 0"
  by (simp add: area_def fdiv_zero_CM PI_val round64_def round32_def fround_zero)

lemma circumference_zero: "circumference (FNum s 0) = FNum s 0"
  by (simp add: circumference_def fdiv_zero_CM two_PI_val round64_def round32_def fround_zero)

lemma area_of_inf: "area (FInf s) = FInf False"
  by (simp add: area_def CM_val PI_val)

lemma circumference_of_inf: "circumference (FInf s) = FInf s"
  by (simp add: circumference_def CM_val two_PI_val)

lemma area_of_nan: "area (FNan s) = FNan s"
  by (simp add: area_def PI_val CM_val)

lemma circumference_of_nan: "circumference (FNan s) = FNan s"
  by (simp add: circumference_def two_PI_val CM_val)

section \<open>The radii 2.54, 5.08, 1e20 and 3e38, one rounding at a time\<close>

lemma read_254: "round32 False (127 / 50) = FNum False (2663383 / 1048576)"
proof -
  have "fround 24 (- 126) 127 False (127 / 50) = FNum False (of_int 10653532 * 2 powi (- 22))"
    by (rule fround_eval[where e = 1]) simp_all
  thus ?thesis by (simp add: round32_def)
qed

lemma inches_254: "round64 False (2859785720430592 / 2859785763380265) = FNum False (9007199119466431 / 9007199254740992)"
proof -
  have "fround 53 (- 1022) 1023 False (2859785720430592 / 2859785763380265) = FNum False (of_int 9007199119466431 * 2 powi (- 53))"
    by (rule fround_eval[where e = "- 1"]) simp_all
  thus ?thesis by (simp add: round64_def)
qed

lemma pi_inches_254: "round64 False (31859507114886225452182811610889 / 10141204801825835211973625643008) = FNum False (221069739700973 / 70368744177664)"
proof -
  have "fround 53 (- 1022) 1023 False (31859507114886225452182811610889 / 10141204801825835211973625643008) = FNum False (of_int 7074231670431136 * 2 powi (- 51))"
    by (rule fround_eval[where e = 1]) simp_all
  thus ?thesis by (simp add: round64_def)
qed

lemma product_254: "round64 False (1991219164775277108801251537363 / 633825300114114700748351602688) = FNum False (1768557891046709 / 562949953421312)"
proof -
  have "fround 53 (- 1022) 1023 False (1991219164775277108801251537363 / 633825300114114700748351602688) = FNum False (of_int 7074231564186836 * 2 powi (- 51))"
    by (rule fround_eval[where e = 1]) simp_all
  thus ?thesis by (simp add: round64_def)
qed

lemma stored_area_254: "round32 False (1768557891046709 / 562949953421312) = FNum False (13176783 / 4194304)"
proof -
  have "fround 24 (- 126) 127 False (1768557891046709 / 562949953421312) = FNum False (of_int 13176783 * 2 powi (- 22))"
    by (rule fround_eval[where e = 1]) simp_all
  thus ?thesis by (simp add: round32_def)
qed

lemma read_508: "round32 False (127 / 25) = FNum False (2663383 / 524288)"
proof -
  have "fround 24 (- 126) 127 False (127 / 25) = FNum False (of_int 10653532 * 2 powi (- 21))"
    by (rule fround_eval[where e = 2]) simp_all
  thus ?thesis by (simp add: round32_def)
qed

lemma inches_508: "round64 False (5719571440861184 / 2859785763380265) = FNum False (9007199119466431 / 4503599627370496)"
proof -
  have "fround 53 (- 1022) 1023 False (5719571440861184 / 2859785763380265) = FNum False (of_int 9007199119466431 * 2 powi (- 52))"
    by (rule fround_eval[where e = 0]) simp_all
  thus ?thesis by (simp add: round64_def)
qed

lemma pi_inches_508: "round64 False (31859507114886225452182811610889 / 5070602400912917605986812821504) = FNum False (221069739700973 / 35184372088832)"
proof -
  have "fround 53 (- 1022) 1023 False (31859507114886225452182811610889 / 5070602400912917605986812821504) = FNum False (of_int 7074231670431136 * 2 powi (- 50))"
    by (rule fround_eval[where e = 2]) simp_all
  thus ?thesis by (simp add: round64_def)
qed

lemma product_508: "round64 False (1991219164775277108801251537363 / 158456325028528675187087900672) = FNum False (1768557891046709 / 140737488355328)"
proof -
  have "fround 53 (- 1022) 1023 False (1991219164775277108801251537363 / 158456325028528675187087900672) = FNum False (of_int 7074231564186836 * 2 powi (- 49))"
    by (rule fround_eval[where e = 3]) simp_all
  thus ?thesis by (simp add: round64_def)
qed

lemma stored_area_508: "round32 False (1768557891046709 / 140737488355328) = FNum False (13176783 / 1048576)"
proof -
  have "fround 24 (- 126) 127 False (1768557891046709 / 140737488355328) = FNum False (of_int 13176783 * 2 powi (- 20))"
    by (rule fround_eval[where e = 3]) simp_all
  thus ?thesis by (simp add: round32_def)
qed

lemma two_pi_inches_508: "round64 False (31859507114886225452182811610889 / 2535301200456458802993406410752) = FNum False (221069739700973 / 17592186044416)"
proof -
  have "fround 53 (- 1022) 1023 False (31859507114886225452182811610889 / 2535301200456458802993406410752) = FNum False (of_int 7074231670431136 * 2 powi (- 49))"
    by (rule fround_eval[where e = 3]) simp_all
  thus ?thesis by (simp add: round64_def)
qed

lemma stored_circ_508: "round32 False (221069739700973 / 17592186044416) = FNum False (13176783 / 1048576)"
proof -
  have "fround 24 (- 126) 127 False (221069739700973 / 17592186044416) = FNum False (of_int 13176783 * 2 powi (- 20))"
    by (rule fround_eval[where e = 3]) simp_all
  thus ?thesis by (simp add: round32_def)
qed

lemma read_1e20: "round32 False (100000000000000000000) = FNum False (100000002004087734272)"
proof -
  have "fround 24 (- 126) 127 False (100000000000000000000) = FNum False (of_int 11368684 * 2 powi 43)"
    by (rule fround_eval[where e = 66]) simp_all
  thus ?thesis by (simp add: round32_def)
qed

lemma inches_1e20: "round64 False (112589992940664593321290201435209728 / 2859785763380265) = FNum False (39370079529168396288)"
proof -
  have "fround 53 (- 1022) 1023 False (112589992940664593321290201435209728 / 2859785763380265) = FNum False (of_int 4805917911275439 * 2 powi 13)"
    by (rule fround_eval[where e = 65]) simp_all
  thus ?thesis by (simp add: round64_def)
qed

lemma pi_inches_1e20: "round64 False (16999088602019179422152861983641 / 137438953472) = FNum False (123684648148040138752)"
proof -
  have "fround 53 (- 1022) 1023 False (16999088602019179422152861983641 / 137438953472) = FNum False (of_int 7549111825441903 * 2 powi 14)"
    by (rule fround_eval[where e = 66]) simp_all
  thus ?thesis by (simp add: round64_def)
qed

lemma product_1e20: "round64 False (4869474434125550863781150841648841752576) = FNum False (4869474434125550897038889997257939091456)"
proof -
  have "fround 53 (- 1022) 1023 False (4869474434125550863781150841648841752576) = FNum False (of_int 8055869690462562 * 2 powi 79)"
    by (rule fround_eval[where e = 131]) simp_all
  thus ?thesis by (simp add: round64_def)
qed

lemma stored_area_1e20: "round32 False (4869474434125550897038889997257939091456) = FInf False"
proof -
  have "fround 24 (- 126) 127 False (4869474434125550897038889997257939091456) = FInf False"
    by (rule fround_eval_inf[where e = 131 and n = 15005227 and u = "2 powi 108"]) simp_all
  thus ?thesis by (simp add: round32_def)
qed

lemma two_pi_inches_254: "round64 False (31859507114886225452182811610889 / 5070602400912917605986812821504) = FNum False (221069739700973 / 35184372088832)"
proof -
  have "fround 53 (- 1022) 1023 False (31859507114886225452182811610889 / 5070602400912917605986812821504) = FNum False (of_int 7074231670431136 * 2 powi (- 50))"
    by (rule fround_eval[where e = 2]) simp_all
  thus ?thesis by (simp add: round64_def)
qed

lemma stored_circ_254: "round32 False (221069739700973 / 35184372088832) = FNum False (13176783 / 2097152)"
proof -
  have "fround 24 (- 126) 127 False (221069739700973 / 35184372088832) = FNum False (of_int 13176783 * 2 powi (- 21))"
    by (rule fround_eval[where e = 2]) simp_all
  thus ?thesis by (simp add: round32_def)
qed

lemma read_3e38: "round32 False (300000000000000000000000000000000000000) = FNum False (300000000549775575777803994281145270272)"
proof -
  have "fround 24 (- 126) 127 False (300000000000000000000000000000000000000) = FNum False (of_int 14791142 * 2 powi 104)"
    by (rule fround_eval[where e = 127]) simp_all
  thus ?thesis by (simp add: round32_def)
qed

lemma inches_3e38: "round64 False (337769972671779469552579488811762310248745146649673728 / 2859785763380265) = FNum False (118110236436919517874021525847076241408)"
proof -
  have "fround 53 (- 1022) 1023 False (337769972671779469552579488811762310248745146649673728 / 2859785763380265) = FNum False (of_int 6252703854379137 * 2 powi 74)"
    by (rule fround_eval[where e = 126]) simp_all
  thus ?thesis by (simp add: round64_def)
qed

lemma pi_inches_3e38: "round64 False (371053937687861974293871675620508827648) = FNum False (371053937687861969120476835663858106368)"
proof -
  have "fround 53 (- 1022) 1023 False (371053937687861974293871675620508827648) = FNum False (of_int 4910857975469738 * 2 powi 76)"
    by (rule fround_eval[where e = 128]) simp_all
  thus ?thesis by (simp add: round64_def)
qed

lemma product_3e38: "round64 False (43825268311163379068082108593090218598033268379020111250241784450437710086144) = FNum False (43825268311163381646713272653588737989275302564253417566479282295805310926848)"
proof -
  have "fround 53 (- 1022) 1023 False (43825268311163379068082108593090218598033268379020111250241784450437710086144) = FNum False (of_int 6818132856418337 * 2 powi 202)"
    by (rule fround_eval[where e = 254]) simp_all
  thus ?thesis by (simp add: round64_def)
qed

lemma stored_area_3e38: "round32 False (43825268311163381646713272653588737989275302564253417566479282295805310926848) = FInf False"
proof -
  have "fround 24 (- 126) 127 False (43825268311163381646713272653588737989275302564253417566479282295805310926848) = FInf False"
    by (rule fround_eval_inf[where e = 254 and n = 12699762 and u = "2 powi 231"]) simp_all
  thus ?thesis by (simp add: round32_def)
qed

lemma two_pi_inches_3e38: "round64 False (742107875375723948587743351241017655296) = FNum False (742107875375723938240953671327716212736)"
proof -
  have "fround 53 (- 1022) 1023 False (742107875375723948587743351241017655296) = FNum False (of_int 4910857975469738 * 2 powi 77)"
    by (rule fround_eval[where e = 129]) simp_all
  thus ?thesis by (simp add: round64_def)
qed

lemma stored_circ_3e38: "round32 False (742107875375723938240953671327716212736) = FInf False"
proof -
  have "fround 24 (- 126) 127 False (742107875375723938240953671327716212736) = FInf False"
    by (rule fround_eval_inf[where e = 129 and n = 9147186 and u = "2 powi 106"]) simp_all
  thus ?thesis by (simp add: round32_def)
qed

lemma strtof_254: "strtof (Dec False 254 (- 2)) = FNum False (2663383 / 1048576)"
  by (simp add: read_254)

lemma strtof_508: "strtof (Dec False 508 (- 2)) = FNum False (2663383 / 524288)"
  by (simp add: read_508)

lemma strtof_1e20: "strtof (Dec False 1 20) = FNum False 100000002004087734272"
  by (simp add: read_1e20)

lemma area_254f: "area (FNum False (2663383 / 1048576)) = FNum False (13176783 / 4194304)"
  by (simp add: area_def PI_val CM_val inches_254 pi_inches_254 product_254 stored_area_254)

lemma area_508f: "area (FNum False (2663383 / 524288)) = FNum False (13176783 / 1048576)"
  by (simp add: area_def PI_val CM_val inches_508 pi_inches_508 product_508 stored_area_508)

lemma circumference_508f:
  "circumference (FNum False (2663383 / 524288)) = FNum False (13176783 / 1048576)"
  by (simp add: circumference_def two_PI_val CM_val inches_508 two_pi_inches_508 stored_circ_508)

lemma area_1e20f: "area (FNum False 100000002004087734272) = FInf False"
  by (simp add: area_def PI_val CM_val inches_1e20 pi_inches_1e20 product_1e20 stored_area_1e20)

lemma circumference_254f:
  "circumference (FNum False (2663383 / 1048576)) = FNum False (13176783 / 2097152)"
  by (simp add: circumference_def two_PI_val CM_val inches_254 two_pi_inches_254 stored_circ_254)

lemma strtof_3e38:
  "strtof (Dec False 3 38) = FNum False 300000000549775575777803994281145270272"
  by (simp add: read_3e38)

lemma area_3e38f: "area (FNum False 300000000549775575777803994281145270272) = FInf False"
  by (simp add: area_def PI_val CM_val inches_3e38 pi_inches_3e38 product_3e38 stored_area_3e38)

lemma circumference_3e38f:
  "circumference (FNum False 300000000549775575777803994281145270272) = FInf False"
  by (simp add: circumference_def two_PI_val CM_val inches_3e38 two_pi_inches_3e38
      stored_circ_3e38)

section \<open>The rounding errors of the two formulas\<close>

lemma inches_pos:
  assumes "2 powi (- 149) \<le> m" and "m < 2 powi 128"
  obtains d where "inches (FNum s m) = FNum s d"
    and "m / cm64 * lo64 \<le> d" and "d \<le> m / cm64 * hi64"
    and "2 powi (- 151) \<le> d" and "d \<le> 2 powi 127"
proof -
  have m: "0 < m" using assms(1) zero_less_power_int[of "2::rat" "- 149"] by linarith
  have lower: "2 powi (- 149) / cm64 \<le> m / cm64"
    using assms(1) by (intro divide_right_mono) simp_all
  have upper: "m / cm64 \<le> 2 powi 128 / cm64"
    using assms(2) by (intro divide_right_mono) simp_all
  have "(2::rat) powi (- 1022) \<le> 2 powi (- 149) / cm64" by simp
  hence r1: "2 powi (- 1022) \<le> m / cm64" using lower by linarith
  have "2 powi 128 / cm64 \<le> (2::rat) powi 1023" by simp
  hence r2: "m / cm64 \<le> 2 powi 1023" using upper by linarith
  obtain d where d: "round64 s (m / cm64) = FNum s d"
    "m / cm64 * lo64 \<le> d" "d \<le> m / cm64 * hi64"
    using round64_normal[OF r1 r2, of s] by blast
  have "(2::rat) powi (- 151) \<le> 2 powi (- 149) / cm64 * lo64" by simp
  also have "\<dots> \<le> m / cm64 * lo64" using lower by (intro mult_right_mono) simp_all
  finally have b1: "2 powi (- 151) \<le> d" using d(2) by linarith
  have "m / cm64 * hi64 \<le> 2 powi 128 / cm64 * hi64"
    using upper by (intro mult_right_mono) simp_all
  also have "\<dots> \<le> (2::rat) powi 127" by simp
  finally have b2: "d \<le> 2 powi 127" using d(3) by linarith
  have "inches (FNum s m) = FNum s d"
    using d(1) by (simp add: inches_def CM_val)
  thus thesis using d(2,3) b1 b2 that by blast
qed

lemma inches_bounds:
  assumes "strtof l = FNum s m"
  shows "\<exists>d. inches (FNum s m) = FNum s d \<and>
    \<bar>d - m / (254 / 100)\<bar> \<le> m / (254 / 100) * 2 powi (- 52)"
proof (cases "m = 0")
  case True
  thus ?thesis by (simp add: inches_zero)
next
  case False
  with strtof_range[OF assms] have m: "2 powi (- 149) \<le> m" "m < 2 powi 128" by simp_all
  have m0: "0 \<le> m" using m(1) zero_less_power_int[of "2::rat" "- 149"] by linarith
  obtain d where d: "inches (FNum s m) = FNum s d"
    "m / cm64 * lo64 \<le> d" "d \<le> m / cm64 * hi64"
    using inches_pos[OF m, of s] by blast
  have "d \<le> m * (hi64 / cm64)" using d(3) by simp
  also have "\<dots> \<le> m * (1 / (254 / 100) * (1 + 2 powi (- 52)))"
    using m0 by (intro mult_left_mono) simp_all
  finally have up: "d \<le> m / (254 / 100) + m / (254 / 100) * 2 powi (- 52)"
    by (simp add: algebra_simps)
  have "m * (1 / (254 / 100) * (1 - 2 powi (- 52))) \<le> m * (lo64 / cm64)"
    using m0 by (intro mult_left_mono) simp_all
  also have "\<dots> \<le> d" using d(2) by simp
  finally have down: "m / (254 / 100) - m / (254 / 100) * 2 powi (- 52) \<le> d"
    by (simp add: algebra_simps)
  have "\<bar>d - m / (254 / 100)\<bar> \<le> m / (254 / 100) * 2 powi (- 52)"
    using up down by linarith
  thus ?thesis using d(1) by simp
qed

lemma back_to_cm_pos:
  assumes "2 powi (- 151) \<le> d" and "d \<le> 2 powi 127"
  obtains b where "back_to_cm (FNum s d) = FNum s b"
    and "d * cm64 * lo64 \<le> b" and "b \<le> d * cm64 * hi64"
proof -
  have "(2::rat) powi (- 1022) \<le> 2 powi (- 151) * cm64" by simp
  also have "\<dots> \<le> d * cm64" using assms(1) by (intro mult_right_mono) simp_all
  finally have r1: "2 powi (- 1022) \<le> d * cm64" .
  have "d * cm64 \<le> 2 powi 127 * cm64" using assms(2) by (intro mult_right_mono) simp_all
  also have "\<dots> \<le> (2::rat) powi 1023" by simp
  finally have r2: "d * cm64 \<le> 2 powi 1023" .
  obtain b where b: "round64 s (d * cm64) = FNum s b"
    "d * cm64 * lo64 \<le> b" "b \<le> d * cm64 * hi64"
    using round64_normal[OF r1 r2, of s] by blast
  have "back_to_cm (FNum s d) = FNum s b"
    using b(1) by (simp add: back_to_cm_def CM_val)
  thus thesis using b(2,3) that by blast
qed

lemma round_trip_bounds:
  assumes "strtof l = FNum s m"
  shows "\<exists>b. back_to_cm (inches (FNum s m)) = FNum s b \<and> \<bar>b - m\<bar> \<le> m * 2 powi (- 51)"
proof -
  have range: "m = 0 \<or> (2 powi (- 149) \<le> m \<and> m < 2 powi 128)"
    using assms by (rule strtof_range)
  show ?thesis
  proof (cases "m = 0")
    case True
    thus ?thesis by (simp add: inches_zero back_to_cm_def CM_val round64_def fround_zero)
  next
    case False
    with range have m: "2 powi (- 149) \<le> m" "m < 2 powi 128" by simp_all
    have m0: "0 < m" using m(1) zero_less_power_int[of "2::rat" "- 149"] by linarith
    obtain d where d: "inches (FNum s m) = FNum s d"
      "m / cm64 * lo64 \<le> d" "d \<le> m / cm64 * hi64" "2 powi (- 151) \<le> d" "d \<le> 2 powi 127"
      using inches_pos[OF m, of s] by blast
    obtain b where b: "back_to_cm (FNum s d) = FNum s b"
      "d * cm64 * lo64 \<le> b" "b \<le> d * cm64 * hi64"
      using back_to_cm_pos[OF d(4,5), of s] by blast
    have "b \<le> d * (cm64 * hi64)" using b(3) by (simp only: mult.assoc)
    also have "\<dots> \<le> (m / cm64 * hi64) * (cm64 * hi64)"
      using d(3) by (intro mult_right_mono) simp_all
    also have "\<dots> = m * (hi64 * hi64)" by simp
    also have "\<dots> \<le> m * (1 + 2 powi (- 51))"
      using m0 by (intro mult_left_mono) simp_all
    finally have up: "b \<le> m + m * 2 powi (- 51)" by (simp only: distrib_left mult_1_right)
    have "m * (1 - 2 powi (- 51)) \<le> m * (lo64 * lo64)"
      using m0 by (intro mult_left_mono) simp_all
    also have "\<dots> = (m / cm64 * lo64) * (cm64 * lo64)" by simp
    also have "\<dots> \<le> d * (cm64 * lo64)"
      using d(2) by (intro mult_right_mono) simp_all
    also have "\<dots> \<le> b" using b(2) by (simp only: mult.assoc)
    finally have down: "m - m * 2 powi (- 51) \<le> b"
      by (simp only: right_diff_distrib mult_1_right)
    have "\<bar>b - m\<bar> \<le> m * 2 powi (- 51)" using up down by linarith
    thus ?thesis using d(1) b(1) by simp
  qed
qed

lemma area_spec_square: "area_spec m = m * m * (314159 / 100000 / (254 / 100 * (254 / 100)))"
  by (simp add: area_spec_def power2_eq_square)

lemma area_spec_valof: "area_spec (valof (FNum s m)) = area_spec m"
  by (simp add: area_spec_def)

lemma product_pos:
  assumes m: "2 powi (- 149) \<le> m" "m < 2 powi 128"
  obtains u where "fmul (fmul PI (inches (FNum s m))) (inches (FNum s m)) = FNum False u"
    and "m * m * (pi64 * lo64 * lo64 * lo64 * lo64 / (cm64 * cm64)) \<le> u"
    and "u \<le> m * m * (pi64 * hi64 * hi64 * hi64 * hi64 / (cm64 * cm64))"
    and "0 < u"
proof -
  have m0: "0 < m" using m(1) zero_less_power_int[of "2::rat" "- 149"] by linarith
  obtain d where d: "inches (FNum s m) = FNum s d"
    "m / cm64 * lo64 \<le> d" "d \<le> m / cm64 * hi64" "2 powi (- 151) \<le> d" "d \<le> 2 powi 127"
    using inches_pos[OF m, of s] by blast
  have d0: "0 < d" using d(4) zero_less_power_int[of "2::rat" "- 151"] by linarith
  \<comment> \<open>\<open>PI * (r/CM)\<close>\<close>
  have "(2::rat) powi (- 1022) \<le> pi64 * 2 powi (- 151)" by simp
  also have "\<dots> \<le> pi64 * d" using d(4) by (intro mult_left_mono) simp_all
  finally have r1: "2 powi (- 1022) \<le> pi64 * d" .
  have "pi64 * d \<le> pi64 * 2 powi 127" using d(5) by (intro mult_left_mono) simp_all
  also have "\<dots> \<le> (2::rat) powi 1023" by simp
  finally have r2: "pi64 * d \<le> 2 powi 1023" .
  obtain t where t: "round64 s (pi64 * d) = FNum s t"
    "pi64 * d * lo64 \<le> t" "t \<le> pi64 * d * hi64"
    using round64_normal[OF r1 r2, of s] by blast
  have t_lo: "2 powi (- 151) \<le> t"
  proof -
    have "(2::rat) powi (- 151) \<le> 2 powi (- 151) * (pi64 * lo64)" by simp
    also have "\<dots> \<le> d * (pi64 * lo64)" using d(4) by (intro mult_right_mono) simp_all
    also have "\<dots> = pi64 * d * lo64" by simp
    finally show ?thesis using t(2) by linarith
  qed
  have t_hi: "t \<le> 2 powi 129"
  proof -
    have "pi64 * d * hi64 = d * (pi64 * hi64)" by simp
    also have "\<dots> \<le> 2 powi 127 * (pi64 * hi64)" using d(5) by (intro mult_right_mono) simp_all
    also have "\<dots> \<le> (2::rat) powi 129" by simp
    finally show ?thesis using t(3) by linarith
  qed
  have t0: "0 < t" using t_lo zero_less_power_int[of "2::rat" "- 151"] by linarith
  \<comment> \<open>\<open>PI * (r/CM) * (r/CM)\<close>\<close>
  have "(2::rat) powi (- 1022) \<le> 2 powi (- 151) * 2 powi (- 151)" by simp
  also have "\<dots> \<le> t * d" using t_lo d(4) by (intro mult_mono) simp_all
  finally have r3: "2 powi (- 1022) \<le> t * d" .
  have "t * d \<le> 2 powi 129 * 2 powi 127" using t_hi d(5) t0 d0 by (intro mult_mono) simp_all
  also have "\<dots> \<le> (2::rat) powi 1023" by simp
  finally have r4: "t * d \<le> 2 powi 1023" .
  obtain u where u: "round64 False (t * d) = FNum False u"
    "t * d * lo64 \<le> u" "u \<le> t * d * hi64"
    using round64_normal[OF r3 r4, of False] by blast
  have eq: "fmul (fmul PI (inches (FNum s m))) (inches (FNum s m)) = FNum False u"
    using t(1) u(1) by (simp add: d(1) PI_val)
  have A0: "0 \<le> m / cm64" using m0 by simp
  \<comment> \<open>the upper bound\<close>
  have dd_hi: "d * d \<le> (m / cm64 * hi64) * (m / cm64 * hi64)"
    using d(3) d0 by (intro mult_mono) simp_all
  have "t * d \<le> (pi64 * d * hi64) * d" using t(3) d0 by (intro mult_right_mono) simp_all
  also have "\<dots> = pi64 * hi64 * (d * d)" by (simp only: mult_ac)
  also have "\<dots> \<le> pi64 * hi64 * ((m / cm64 * hi64) * (m / cm64 * hi64))"
    using dd_hi by (intro mult_left_mono) simp_all
  finally have "t * d * hi64 \<le> pi64 * hi64 * ((m / cm64 * hi64) * (m / cm64 * hi64)) * hi64"
    by (intro mult_right_mono) simp_all
  also have "\<dots> = m * m * (pi64 * hi64 * hi64 * hi64 * hi64 / (cm64 * cm64))"
    by (simp only: times_divide_eq_right times_divide_eq_left mult_ac divide_divide_eq_left)
  finally have up: "u \<le> m * m * (pi64 * hi64 * hi64 * hi64 * hi64 / (cm64 * cm64))"
    using u(3) by linarith
  \<comment> \<open>the lower bound\<close>
  have lo0: "0 \<le> m / cm64 * lo64" using m0 by simp
  have dd_lo: "(m / cm64 * lo64) * (m / cm64 * lo64) \<le> d * d"
    using d(2) lo0 by (intro mult_mono) simp_all
  have "m * m * (pi64 * lo64 * lo64 * lo64 * lo64 / (cm64 * cm64))
      = pi64 * lo64 * ((m / cm64 * lo64) * (m / cm64 * lo64)) * lo64"
    by (simp only: times_divide_eq_right times_divide_eq_left mult_ac divide_divide_eq_left)
  also have "\<dots> \<le> pi64 * lo64 * (d * d) * lo64"
    using dd_lo by (intro mult_right_mono mult_left_mono) simp_all
  also have "\<dots> = (pi64 * d * lo64) * d * lo64" by (simp only: mult_ac)
  also have "\<dots> \<le> t * d * lo64"
    using t(2) d0 by (intro mult_right_mono) simp_all
  finally have down: "m * m * (pi64 * lo64 * lo64 * lo64 * lo64 / (cm64 * cm64)) \<le> u"
    using u(2) by linarith
  have "0 < t * d * lo64" using t0 d0 by simp
  hence u0: "0 < u" using u(2) by linarith
  show thesis using eq up down u0 that by blast
qed

lemma area_bounds:
  assumes "strtof l = FNum s m"
  shows "(area (FNum s m) = FInf False \<and> 34 * 10 ^ 37 \<le> area_spec m) \<or>
    (\<exists>a. area (FNum s m) = FNum False a \<and>
       \<bar>a - area_spec m\<bar> \<le> area_spec m * 2 powi (- 23) + 2 powi (- 150))"
proof (cases "m = 0")
  case True
  thus ?thesis by (simp add: area_zero area_spec_def)
next
  case False
  with strtof_range[OF assms] have m: "2 powi (- 149) \<le> m" "m < 2 powi 128" by simp_all
  have m0: "0 < m" using m(1) zero_less_power_int[of "2::rat" "- 149"] by linarith
  hence mm: "0 \<le> m * m" by simp
  obtain u where u: "fmul (fmul PI (inches (FNum s m))) (inches (FNum s m)) = FNum False u"
    "m * m * (pi64 * lo64 * lo64 * lo64 * lo64 / (cm64 * cm64)) \<le> u"
    "u \<le> m * m * (pi64 * hi64 * hi64 * hi64 * hi64 / (cm64 * cm64))" "0 < u"
    using product_pos[OF m, of s] by blast
  have a: "area (FNum s m) = round32 False u"
    using u(1) by (simp add: area_def inches_def)
  define S where "S = area_spec m"
  have S: "S = m * m * (314159 / 100000 / (254 / 100 * (254 / 100)))"
    unfolding S_def by (rule area_spec_square)
  have S0: "0 \<le> S" unfolding S using mm by simp
  \<comment> \<open>the computed product against the exact area, both as multiples of \<open>m * m\<close>\<close>
  have "u * (1 + 2 powi (- 24)) \<le>
      m * m * (pi64 * hi64 * hi64 * hi64 * hi64 / (cm64 * cm64)) * (1 + 2 powi (- 24))"
    using u(3) by (intro mult_right_mono) simp_all
  also have "\<dots> = m * m * (pi64 * hi64 * hi64 * hi64 * hi64 / (cm64 * cm64) * (1 + 2 powi (- 24)))"
    by (simp only: mult.assoc)
  also have "\<dots> \<le> m * m * (314159 / 100000 / (254 / 100 * (254 / 100)) * (1 + 2 powi (- 23)))"
    using mm by (intro mult_left_mono) simp_all
  also have "\<dots> = S * (1 + 2 powi (- 23))" unfolding S by (simp only: mult.assoc)
  finally have up: "u * (1 + 2 powi (- 24)) \<le> S * (1 + 2 powi (- 23))" .
  have "S * (1 - 2 powi (- 23)) =
      m * m * (314159 / 100000 / (254 / 100 * (254 / 100)) * (1 - 2 powi (- 23)))"
    unfolding S by (simp only: mult.assoc)
  also have "\<dots> \<le> m * m * (pi64 * lo64 * lo64 * lo64 * lo64 / (cm64 * cm64) * (1 - 2 powi (- 24)))"
    using mm by (intro mult_left_mono) simp_all
  also have "\<dots> = m * m * (pi64 * lo64 * lo64 * lo64 * lo64 / (cm64 * cm64)) * (1 - 2 powi (- 24))"
    by (simp only: mult.assoc)
  also have "\<dots> \<le> u * (1 - 2 powi (- 24))"
    using u(2) by (intro mult_right_mono) simp_all
  finally have down: "S * (1 - 2 powi (- 23)) \<le> u * (1 - 2 powi (- 24))" .
  from u(4) show ?thesis
  proof (cases rule: round32_any[where s = False])
    case inf
    have "2 powi 128 \<le> S * (1 + 2 powi (- 23)) + 2 powi (- 150)"
      using inf(2) up by linarith
    moreover have "S < 34 * 10 ^ 37 \<Longrightarrow> S * (1 + 2 powi (- 23)) + 2 powi (- 150) < 2 powi 128"
    proof -
      assume "S < 34 * 10 ^ 37"
      hence "S * (1 + 2 powi (- 23)) \<le> 34 * 10 ^ 37 * (1 + 2 powi (- 23))"
        by (intro mult_right_mono) simp_all
      moreover have "(34 * 10 ^ 37 * (1 + 2 powi (- 23)) + 2 powi (- 150) :: rat) < 2 powi 128"
        by simp
      ultimately show ?thesis by linarith
    qed
    ultimately have "34 * 10 ^ 37 \<le> S" by (rule_tac ccontr) (simp add: not_le)
    thus ?thesis using inf(1) a by (simp add: S_def)
  next
    case (fin a')
    have up': "u + u * 2 powi (- 24) \<le> S + S * 2 powi (- 23)"
      using up by (simp only: distrib_left mult_1_right)
    have down': "S - S * 2 powi (- 23) \<le> u - u * 2 powi (- 24)"
      using down by (simp only: right_diff_distrib mult_1_right)
    have "\<bar>a' - u\<bar> \<le> u * 2 powi (- 24) + 2 powi (- 150)" by (rule fin(2))
    hence "\<bar>a' - S\<bar> \<le> S * 2 powi (- 23) + 2 powi (- 150)"
      using up' down' by linarith
    thus ?thesis using fin(1) a by (simp add: S_def)
  qed
qed

lemma circumference_spec_linear:
  "circumference_spec m = m * (2 * (314159 / 100000) / (254 / 100))"
  by (simp add: circumference_spec_def)

lemma circumference_spec_valof:
  "\<bar>valof (FNum s c) - circumference_spec (valof (FNum s m))\<bar> = \<bar>c - circumference_spec m\<bar>"
proof (cases s)
  case True
  have "circumference_spec (- m) = - circumference_spec m" by (simp add: circumference_spec_def)
  hence "valof (FNum s c) - circumference_spec (valof (FNum s m)) = - (c - circumference_spec m)"
    using True by simp
  thus ?thesis by (simp only: abs_minus_cancel)
next
  case False
  thus ?thesis by simp
qed

lemma two_pi_inches_pos:
  assumes m: "2 powi (- 149) \<le> m" "m < 2 powi 128"
  obtains v where "fmul (fmul (of_int_const 2) PI) (inches (FNum s m)) = FNum s v"
    and "m * (two_pi64 * lo64 * lo64 / cm64) \<le> v"
    and "v \<le> m * (two_pi64 * hi64 * hi64 / cm64)"
    and "0 < v"
proof -
  have m0: "0 < m" using m(1) zero_less_power_int[of "2::rat" "- 149"] by linarith
  obtain d where d: "inches (FNum s m) = FNum s d"
    "m / cm64 * lo64 \<le> d" "d \<le> m / cm64 * hi64" "2 powi (- 151) \<le> d" "d \<le> 2 powi 127"
    using inches_pos[OF m, of s] by blast
  have d0: "0 < d" using d(4) zero_less_power_int[of "2::rat" "- 151"] by linarith
  have "(2::rat) powi (- 1022) \<le> two_pi64 * 2 powi (- 151)" by simp
  also have "\<dots> \<le> two_pi64 * d" using d(4) by (intro mult_left_mono) simp_all
  finally have r1: "2 powi (- 1022) \<le> two_pi64 * d" .
  have "two_pi64 * d \<le> two_pi64 * 2 powi 127" using d(5) by (intro mult_left_mono) simp_all
  also have "\<dots> \<le> (2::rat) powi 1023" by simp
  finally have r2: "two_pi64 * d \<le> 2 powi 1023" .
  obtain v where v: "round64 s (two_pi64 * d) = FNum s v"
    "two_pi64 * d * lo64 \<le> v" "v \<le> two_pi64 * d * hi64"
    using round64_normal[OF r1 r2, of s] by blast
  have eq: "fmul (fmul (of_int_const 2) PI) (inches (FNum s m)) = FNum s v"
    using v(1) by (simp add: d(1) two_PI_val)
  have "v \<le> d * (two_pi64 * hi64)" using v(3) by (simp only: mult_ac)
  also have "\<dots> \<le> (m / cm64 * hi64) * (two_pi64 * hi64)"
    using d(3) by (intro mult_right_mono) simp_all
  also have "\<dots> = m * (two_pi64 * hi64 * hi64 / cm64)"
    by (simp only: times_divide_eq_right times_divide_eq_left mult_ac)
  finally have up: "v \<le> m * (two_pi64 * hi64 * hi64 / cm64)" .
  have "m * (two_pi64 * lo64 * lo64 / cm64) = (m / cm64 * lo64) * (two_pi64 * lo64)"
    by (simp only: times_divide_eq_right times_divide_eq_left mult_ac)
  also have "\<dots> \<le> d * (two_pi64 * lo64)"
    using d(2) by (intro mult_right_mono) simp_all
  also have "\<dots> \<le> v" using v(2) by (simp only: mult_ac)
  finally have down: "m * (two_pi64 * lo64 * lo64 / cm64) \<le> v" .
  have "0 < two_pi64 * d * lo64" using d0 by simp
  hence v0: "0 < v" using v(2) by linarith
  show thesis using eq up down v0 that by blast
qed

lemma circumference_bounds:
  assumes "strtof l = FNum s m"
  shows "(circumference (FNum s m) = FInf s \<and> 34 * 10 ^ 37 \<le> circumference_spec m) \<or>
    (\<exists>c. circumference (FNum s m) = FNum s c \<and>
       \<bar>c - circumference_spec m\<bar> \<le> circumference_spec m * 2 powi (- 23) + 2 powi (- 150))"
proof (cases "m = 0")
  case True
  thus ?thesis by (simp add: circumference_zero circumference_spec_def)
next
  case False
  with strtof_range[OF assms] have m: "2 powi (- 149) \<le> m" "m < 2 powi 128" by simp_all
  have m0: "0 \<le> m" using m(1) zero_less_power_int[of "2::rat" "- 149"] by linarith
  obtain v where v: "fmul (fmul (of_int_const 2) PI) (inches (FNum s m)) = FNum s v"
    "m * (two_pi64 * lo64 * lo64 / cm64) \<le> v"
    "v \<le> m * (two_pi64 * hi64 * hi64 / cm64)" "0 < v"
    using two_pi_inches_pos[OF m, of s] by blast
  have c: "circumference (FNum s m) = round32 s v"
    using v(1) by (simp add: circumference_def inches_def)
  define S where "S = circumference_spec m"
  have S: "S = m * (2 * (314159 / 100000) / (254 / 100))"
    unfolding S_def by (rule circumference_spec_linear)
  have "v * (1 + 2 powi (- 24)) \<le> m * (two_pi64 * hi64 * hi64 / cm64) * (1 + 2 powi (- 24))"
    using v(3) by (intro mult_right_mono) simp_all
  also have "\<dots> = m * (two_pi64 * hi64 * hi64 / cm64 * (1 + 2 powi (- 24)))"
    by (simp only: mult.assoc)
  also have "\<dots> \<le> m * (2 * (314159 / 100000) / (254 / 100) * (1 + 2 powi (- 23)))"
    using m0 by (intro mult_left_mono) simp_all
  also have "\<dots> = S * (1 + 2 powi (- 23))" unfolding S by (simp only: mult.assoc)
  finally have up: "v * (1 + 2 powi (- 24)) \<le> S * (1 + 2 powi (- 23))" .
  have "S * (1 - 2 powi (- 23)) = m * (2 * (314159 / 100000) / (254 / 100) * (1 - 2 powi (- 23)))"
    unfolding S by (simp only: mult.assoc)
  also have "\<dots> \<le> m * (two_pi64 * lo64 * lo64 / cm64 * (1 - 2 powi (- 24)))"
    using m0 by (intro mult_left_mono) simp_all
  also have "\<dots> = m * (two_pi64 * lo64 * lo64 / cm64) * (1 - 2 powi (- 24))"
    by (simp only: mult.assoc)
  also have "\<dots> \<le> v * (1 - 2 powi (- 24))"
    using v(2) by (intro mult_right_mono) simp_all
  finally have down: "S * (1 - 2 powi (- 23)) \<le> v * (1 - 2 powi (- 24))" .
  have up': "v + v * 2 powi (- 24) \<le> S + S * 2 powi (- 23)"
    using up by (simp only: distrib_left mult_1_right)
  have down': "S - S * 2 powi (- 23) \<le> v - v * 2 powi (- 24)"
    using down by (simp only: right_diff_distrib mult_1_right)
  from v(4) show ?thesis
  proof (cases rule: round32_any[where s = s])
    case inf
    have "2 powi 128 \<le> v + v * 2 powi (- 24) + 2 powi (- 150)"
      using inf(2) by (simp only: distrib_left mult_1_right)
    hence big: "2 powi 128 \<le> S + S * 2 powi (- 23) + 2 powi (- 150)"
      using up' by linarith
    have "34 * 10 ^ 37 \<le> S"
    proof (rule ccontr)
      assume "\<not> 34 * 10 ^ 37 \<le> S"
      hence "S * (1 + 2 powi (- 23)) \<le> 34 * 10 ^ 37 * (1 + 2 powi (- 23))"
        by (intro mult_right_mono) simp_all
      moreover have "(34 * 10 ^ 37 * (1 + 2 powi (- 23)) + 2 powi (- 150) :: rat) < 2 powi 128"
        by simp
      ultimately have "S * (1 + 2 powi (- 23)) + 2 powi (- 150) < 2 powi 128" by linarith
      hence "S + S * 2 powi (- 23) + 2 powi (- 150) < 2 powi 128"
        by (simp only: distrib_left mult_1_right)
      with big show False by linarith
    qed
    thus ?thesis using inf(1) c by (simp add: S_def)
  next
    case (fin c')
    have "\<bar>c' - v\<bar> \<le> v * 2 powi (- 24) + 2 powi (- 150)" by (rule fin(2))
    hence "\<bar>c' - S\<bar> \<le> S * 2 powi (- 23) + 2 powi (- 150)"
      using up' down' by linarith
    thus ?thesis using fin(1) c by (simp add: S_def)
  qed
qed

lemma area_sign: "area (FNum s m) = FInf False \<or> (\<exists>a. area (FNum s m) = FNum False a)"
proof -
  consider (inf) "fdiv (FNum s m) CM = FInf s"
    | (fin) d where "fdiv (FNum s m) CM = FNum s d"
    using round64_shape[of s "m / cm64"] by (auto simp: CM_val)
  thus ?thesis
  proof cases
    case inf
    thus ?thesis by (simp add: area_def PI_val)
  next
    case (fin d)
    consider (inf2) "fmul PI (FNum s d) = FInf s" "d \<noteq> 0"
      | (fin2) t where "fmul PI (FNum s d) = FNum s t"
      using round64_shape[of s "pi64 * d"] by (auto simp: PI_val)
    thus ?thesis
    proof cases
      case inf2
      thus ?thesis using fin by (simp add: area_def)
    next
      case (fin2 t)
      consider (inf3) "fmul (FNum s t) (FNum s d) = FInf False"
        | (fin3) u where "fmul (FNum s t) (FNum s d) = FNum False u"
        using round64_shape[of False "t * d"] by auto
      thus ?thesis
      proof cases
        case inf3
        thus ?thesis using fin fin2 by (simp add: area_def)
      next
        case (fin3 u)
        thus ?thesis using fin fin2 to_float_shape[of False u] by (simp add: area_def)
      qed
    qed
  qed
qed

lemma circumference_sign:
  "circumference (FNum s m) = FInf s \<or> (\<exists>c. circumference (FNum s m) = FNum s c)"
proof -
  consider (inf) "fdiv (FNum s m) CM = FInf s"
    | (fin) d where "fdiv (FNum s m) CM = FNum s d"
    using round64_shape[of s "m / cm64"] by (auto simp: CM_val)
  thus ?thesis
  proof cases
    case inf
    thus ?thesis by (simp add: circumference_def two_PI_val)
  next
    case (fin d)
    consider (inf2) "fmul (fmul (of_int_const 2) PI) (FNum s d) = FInf s"
      | (fin2) v where "fmul (fmul (of_int_const 2) PI) (FNum s d) = FNum s v"
      using round64_shape[of s "two_pi64 * d"] by (auto simp: two_PI_val)
    thus ?thesis
    proof cases
      case inf2
      thus ?thesis using fin by (simp add: circumference_def)
    next
      case (fin2 v)
      thus ?thesis using fin to_float_shape[of s v] by (simp add: circumference_def)
    qed
  qed
qed

section \<open>Facts about the two programs\<close>

lemma main1_stdout:
  "stdout (main1 r0 inp) = prompt @ area_line (area (fst (scanf_f r0 inp)))"
  by (simp add: main1_def split: prod.splits)

lemma main1_reads:
  "stdout (main1 r0 (Num l # inp)) = prompt @ area_line (area (strtof l))"
  by (simp add: main1_stdout del: strtof.simps)

lemma loop3_exit: "\<not> fne0 r \<Longrightarrow> loop3 r inp out = Some \<lparr>stdout = out, stdin = inp, status = 0\<rparr>"
  by (subst loop3.simps) simp

lemma loop3_step:
  "fne0 r \<Longrightarrow> loop3 r inp out =
     loop3 (fst (scanf_f r inp)) (snd (scanf_f r inp))
       (out @ prompt @ area_line (area (fst (scanf_f r inp))) @
        circ_line (circumference (fst (scanf_f r inp))))"
  by (subst loop3.simps) (simp split: prod.splits)

lemma loop3_reads:
  "fne0 r \<Longrightarrow> loop3 r (Num l # inp) out =
     loop3 (strtof l) inp
       (out @ prompt @ area_line (area (strtof l)) @ circ_line (circumference (strtof l)))"
  using loop3_step[of r "Num l # inp" out] by (simp del: strtof.simps)

lemma area_line_inf: "area_line (FInf False) = ''Circle's area is inf (sq in).'' @ nl"
  unfolding area_line_def printf_inf by simp

lemma circ_line_inf: "circ_line (FInf False) = ''Its circumference is inf (in).'' @ nl"
  unfolding circ_line_def printf_inf by simp

lemma area_line_zero: "area_line (FNum False 0) = ''Circle's area is 0.00 (sq in).'' @ nl"
  by (simp add: area_line_def fixed_2_zero pad_def sign_str_def)

lemma circ_line_zero:
  "circ_line (FNum u 0) = ''Its circumference is '' @ sign_str u @ ''0.00 (in).'' @ nl"
  by (simp add: circ_line_def fixed_2_zero pad_def sign_str_def)

lemma area_line_314:
  "area_line (FNum False (13176783 / 4194304)) = ''Circle's area is 3.14 (sq in).'' @ nl"
  unfolding area_line_def printf_314 by simp

lemma circ_line_628:
  "circ_line (FNum False (13176783 / 2097152)) = ''Its circumference is 6.28 (in).'' @ nl"
  unfolding circ_line_def printf_628 by simp

lemma area_line_1257:
  "area_line (FNum False (13176783 / 1048576)) = ''Circle's area is 12.57 (sq in).'' @ nl"
  unfolding area_line_def printf_1257 by simp

lemma circ_line_1257:
  "circ_line (FNum False (13176783 / 1048576)) = ''Its circumference is 12.57 (in).'' @ nl"
  unfolding circ_line_def printf_1257 by simp

text \<open>
  A whole run: entered, fed numerals whose values are not zero and then one whose value is
  zero, the loop ends, having written one pass for each numeral, the last one included.
\<close>

lemma loop3_run:
  assumes "fne0 r" and "\<forall>k\<in>set ls. fne0 (strtof k)" and "\<not> fne0 (strtof z)"
  shows "loop3 r (map Num ls @ Num z # inp) out =
      Some \<lparr>stdout = out @ concat (map pass_text (ls @ [z])), stdin = inp, status = 0\<rparr>"
  using assms(1,2)
proof (induction ls arbitrary: r out)
  case Nil
  have "loop3 r (Num z # inp) out = loop3 (strtof z) inp (out @ pass_text z)"
    using Nil(1) by (rule loop3_reads)
  also have "\<dots> = Some \<lparr>stdout = out @ pass_text z, stdin = inp, status = 0\<rparr>"
    using assms(3) by (rule loop3_exit)
  finally show ?case by (simp del: strtof.simps)
next
  case (Cons l ls)
  have nz: "fne0 (strtof l)" and rest: "\<forall>k\<in>set ls. fne0 (strtof k)"
    using Cons.prems(2) by simp_all
  have "loop3 r (map Num (l # ls) @ Num z # inp) out =
      loop3 (strtof l) (map Num ls @ Num z # inp) (out @ pass_text l)"
    using loop3_reads[OF Cons.prems(1), of l "map Num ls @ Num z # inp" out] by simp
  also have "\<dots> = Some \<lparr>stdout = (out @ pass_text l) @ concat (map pass_text (ls @ [z])),
      stdin = inp, status = 0\<rparr>"
    using nz rest by (rule Cons.IH)
  finally show ?case by (simp del: strtof.simps)
qed

lemma main3_run:
  assumes "fne0 r0" and "\<forall>k\<in>set ls. fne0 (strtof k)" and "\<not> fne0 (strtof z)"
  shows "main3 r0 (map Num ls @ Num z # inp) =
      Some \<lparr>stdout = concat (map pass_text (ls @ [z])), stdin = inp, status = 0\<rparr>"
  using loop3_run[OF assms, of inp "[]"] by (simp add: main3_def del: strtof.simps)

lemma loop3_extends:
  assumes "loop3 r inp out = Some res"
  shows "\<exists>more. stdout res = out @ more"
  using assms
proof (rule loop3.raw_induct[rotated, where P = "\<lambda>r inp out res. \<exists>more. stdout res = out @ more"])
  fix f r inp out res
  assume IH: "\<And>r inp out y. f r inp out = Some y \<Longrightarrow> \<exists>more. stdout y = out @ more"
    and body: "(if fne0 r
      then case scanf_f r inp of
           (r', inp') \<Rightarrow>
             f r' inp' (out @ prompt @ area_line (area r') @ circ_line (circumference r'))
      else Some \<lparr>stdout = out, stdin = inp, status = 0\<rparr>) = Some res"
  show "\<exists>more. stdout res = out @ more"
  proof (cases "fne0 r")
    case True
    obtain r' inp' where sc: "scanf_f r inp = (r', inp')" by (cases "scanf_f r inp")
    from body True sc
    have "f r' inp' (out @ prompt @ area_line (area r') @ circ_line (circumference r')) = Some res"
      by simp
    from IH[OF this] show ?thesis by auto
  next
    case False
    with body show ?thesis by auto
  qed
qed

lemma loop3_ends_on_zero:
  assumes "loop3 r inp out = Some res"
  shows "fne0 r \<longrightarrow> (\<exists>l. Num l \<in> set inp \<and> fne0 (strtof l) = False)"
  using assms
proof (rule loop3.raw_induct[rotated, where
      P = "\<lambda>r inp out res. fne0 r \<longrightarrow> (\<exists>l. Num l \<in> set inp \<and> fne0 (strtof l) = False)"])
  fix f r inp out res
  assume IH: "\<And>r inp out y. f r inp out = Some y \<Longrightarrow>
      fne0 r \<longrightarrow> (\<exists>l. Num l \<in> set inp \<and> fne0 (strtof l) = False)"
    and body: "(if fne0 r
      then case scanf_f r inp of
           (r', inp') \<Rightarrow>
             f r' inp' (out @ prompt @ area_line (area r') @ circ_line (circumference r'))
      else Some \<lparr>stdout = out, stdin = inp, status = 0\<rparr>) = Some res"
  show "fne0 r \<longrightarrow> (\<exists>l. Num l \<in> set inp \<and> fne0 (strtof l) = False)"
  proof
    assume nz: "fne0 r"
    obtain r' inp' where sc: "scanf_f r inp = (r', inp')" by (cases "scanf_f r inp")
    from body nz sc
    have run: "f r' inp' (out @ prompt @ area_line (area r') @ circ_line (circumference r')) = Some res"
      by simp
    note next_iter = IH[OF run]
    show "\<exists>l. Num l \<in> set inp \<and> fne0 (strtof l) = False"
    proof (cases inp)
      case Nil
      with sc nz next_iter show ?thesis by auto
    next
      case (Cons t rest)
      show ?thesis
      proof (cases t)
        case (Num l)
        show ?thesis
        proof (cases "fne0 (strtof l)")
          case True
          with sc Cons Num next_iter show ?thesis by auto
        next
          case False
          with Cons Num show ?thesis by auto
        qed
      next
        case Junk
        with sc Cons nz next_iter show ?thesis by auto
      qed
    qed
  qed
qed

text \<open>A run of the second program: a one in \<^verbatim>\<open>r\<close>, then the radii 5.08 and 0.\<close>

lemma run3_508:
  "main3 (FNum False 1) [Num (Dec False 508 (- 2)), Num (Dec False 0 0)] =
     Some \<lparr>stdout = ''Enter radius (in cm):'' @ nl @
                    ''Circle's area is 12.57 (sq in).'' @ nl @
                    ''Its circumference is 12.57 (in).'' @ nl @
                    ''Enter radius (in cm):'' @ nl @
                    ''Circle's area is 0.00 (sq in).'' @ nl @
                    ''Its circumference is 0.00 (in).'' @ nl,
           stdin = [], status = 0\<rparr>"
proof -
  have z: "strtof (Dec False 0 0) = FNum False 0" by (simp add: round32_zero)
  have l1: "area_line (FNum False (13176783 / 1048576)) = ''Circle's area is 12.57 (sq in).'' @ nl"
    unfolding area_line_def printf_1257 by simp
  have l2: "circ_line (FNum False (13176783 / 1048576)) = ''Its circumference is 12.57 (in).'' @ nl"
    unfolding circ_line_def printf_1257 by simp
  have l3: "area_line (FNum False 0) = ''Circle's area is 0.00 (sq in).'' @ nl"
    by (simp add: area_line_def fixed_2_zero pad_def sign_str_def)
  have l4: "circ_line (FNum False 0) = ''Its circumference is 0.00 (in).'' @ nl"
    by (simp add: circ_line_def fixed_2_zero pad_def sign_str_def)
  have "main3 (FNum False 1) [Num (Dec False 508 (- 2)), Num (Dec False 0 0)] =
      loop3 (FNum False (2663383 / 524288)) [Num (Dec False 0 0)]
        ([] @ prompt @ area_line (FNum False (13176783 / 1048576)) @
          circ_line (FNum False (13176783 / 1048576)))"
    unfolding main3_def
    by (subst loop3_reads) (simp_all only: strtof_508 area_508f circumference_508f, simp)
  also have "\<dots> = loop3 (FNum False 0) []
        (([] @ prompt @ area_line (FNum False (13176783 / 1048576)) @
          circ_line (FNum False (13176783 / 1048576))) @
         prompt @ area_line (FNum False 0) @ circ_line (FNum False 0))"
    by (subst loop3_reads) (simp_all only: z area_zero circumference_zero, simp)
  also have "\<dots> = Some \<lparr>stdout = ([] @ prompt @ area_line (FNum False (13176783 / 1048576)) @
          circ_line (FNum False (13176783 / 1048576))) @
         prompt @ area_line (FNum False 0) @ circ_line (FNum False 0), stdin = [], status = 0\<rparr>"
    by (rule loop3_exit) simp
  finally show ?thesis unfolding l1 l2 l3 l4 by (simp add: prompt_def)
qed

text \<open>
  The loop does not end when \<^verbatim>\<open>r\<close> is not zero and the input has run out, or has reached
  text that is no numeral: \<^verbatim>\<open>scanf\<close> stores nothing any more.
\<close>

lemma loop3_starved:
  assumes "fne0 r"
  shows "loop3 r [] out = None"
proof -
  have "\<forall>out. loop3 r [] out = None"
  proof (induction rule: loop3.fixp_induct)
    case 1
    show ?case
      by (rule ccpo.admissibleI) (auto simp: fun_lub_def flat_lub_def)
  next
    case 2
    show ?case by simp
  next
    case (3 f)
    thus ?case using assms by simp
  qed
  thus ?thesis by simp
qed

lemma loop3_stuck:
  assumes "fne0 r"
  shows "loop3 r (Junk # inp) out = None"
proof -
  have "\<forall>out. loop3 r (Junk # inp) out = None"
  proof (induction rule: loop3.fixp_induct)
    case 1
    show ?case
      by (rule ccpo.admissibleI) (auto simp: fun_lub_def flat_lub_def)
  next
    case 2
    show ?case by simp
  next
    case (3 f)
    thus ?case using assms by simp
  qed
  thus ?thesis by simp
qed

section \<open>The claims\<close>

subsection \<open>The formulas\<close>

text \<open>
  C1, as stated, fails: the radius 1e20 is read as a finite \<^verbatim>\<open>float\<close>, the formula gives
  an area below \<open>5 * 10 ^ 39\<close>, and the area the program computes and prints is the
  infinity, the product being beyond the range of \<^verbatim>\<open>float\<close>.
\<close>

theorem area_overflows:
  "strtof (Dec False 1 20) = FNum False 100000002004087734272 \<and>
   area (FNum False 100000002004087734272) = FInf False \<and>
   area_spec 100000002004087734272 < 5 * 10 ^ 39 \<and>
   stdout (main1 (FNan False) [Num (Dec False 1 20), Junk]) =
     ''Enter radius (in cm):'' @ [CHR 0x0A] @ ''Circle's area is inf (sq in).'' @ [CHR 0x0A]"
proof (intro conjI)
  show "strtof (Dec False 1 20) = FNum False 100000002004087734272" by (rule strtof_1e20)
  show "area (FNum False 100000002004087734272) = FInf False" by (rule area_1e20f)
  show "area_spec 100000002004087734272 < 5 * 10 ^ 39" by (simp add: area_spec_def power2_eq_square)
  have "stdout (main1 (FNan False) [Num (Dec False 1 20), Junk]) =
      prompt @ area_line (area (strtof (Dec False 1 20)))"
    by (rule main1_reads)
  thus "stdout (main1 (FNan False) [Num (Dec False 1 20), Junk]) =
     ''Enter radius (in cm):'' @ [CHR 0x0A] @ ''Circle's area is inf (sq in).'' @ [CHR 0x0A]"
    unfolding strtof_1e20 area_1e20f area_line_inf by (simp add: prompt_def nl_def)
qed

text \<open>
  C1, amended. Let the radius read be the finite \<^verbatim>\<open>float\<close> of magnitude \<open>m\<close>. The
  conversion to inches is \<open>m / 2.54\<close> up to a relative error of \<open>2 powi (- 52)\<close>. The area
  is \<open>3.14159 * (m / 2.54)\<^sup>2\<close> up to a relative error of \<open>2 powi (- 23)\<close> and an absolute
  error of \<open>2 powi (- 150)\<close> (the rounding of a tiny result), unless the result overflows
  the \<^verbatim>\<open>float\<close> range to the infinity, which happens only when the exact area is at least
  \<open>34 * 10 ^ 37\<close>. The area of an infinite radius is the positive infinity, and that of a
  NaN is the NaN. Both programs print this area: the first program in its one area
  line, and the second program in the pass that reads the radius, in every run that is
  entered and is fed numerals up to one whose value is zero; such a run ends, and its
  whole output is given.
\<close>

theorem area_refines_spec:
  assumes "strtof l = FNum s m"
  shows "(\<exists>d. inches (FNum s m) = FNum s d \<and>
            \<bar>d - m / (254 / 100)\<bar> \<le> m / (254 / 100) * 2 powi (- 52)) \<and>
         ((area (FNum s m) = FInf False \<and> 34 * 10 ^ 37 \<le> area_spec (valof (FNum s m))) \<or>
          (\<exists>a. area (FNum s m) = FNum False a \<and>
             \<bar>a - area_spec (valof (FNum s m))\<bar>
               \<le> area_spec (valof (FNum s m)) * 2 powi (- 23) + 2 powi (- 150))) \<and>
         stdout (main1 r0 (Num l # inp)) = prompt @ area_line (area (FNum s m)) \<and>
         (fne0 r \<longrightarrow> (\<forall>k\<in>set pre. fne0 (strtof k)) \<longrightarrow> m \<noteq> 0 \<longrightarrow>
          (\<forall>k\<in>set post. fne0 (strtof k)) \<longrightarrow> fne0 (strtof z) = False \<longrightarrow>
            main3 r (map Num pre @ Num l # map Num post @ Num z # inp) =
              Some \<lparr>stdout = concat (map pass_text pre) @
                       prompt @ area_line (area (FNum s m)) @
                       circ_line (circumference (FNum s m)) @
                       concat (map pass_text (post @ [z])),
                    stdin = inp, status = 0\<rparr>) \<and>
         (fne0 r \<longrightarrow> (\<forall>k\<in>set pre. fne0 (strtof k)) \<longrightarrow> m = 0 \<longrightarrow>
            main3 r (map Num pre @ Num l # inp) =
              Some \<lparr>stdout = concat (map pass_text pre) @
                       prompt @ area_line (area (FNum s m)) @
                       circ_line (circumference (FNum s m)),
                    stdin = inp, status = 0\<rparr>) \<and>
         (fne0 r \<longrightarrow>
            loop3 r (Num l # inp) out =
              loop3 (FNum s m) inp
                (out @ prompt @ area_line (area (FNum s m)) @
                 circ_line (circumference (FNum s m)))) \<and>
         area (FInf t) = FInf False \<and> area (FNan t) = FNan t"
proof (intro conjI impI)
  show "area (FInf t) = FInf False" by (rule area_of_inf)
  show "area (FNan t) = FNan t" by (rule area_of_nan)
  show "\<exists>d. inches (FNum s m) = FNum s d \<and>
            \<bar>d - m / (254 / 100)\<bar> \<le> m / (254 / 100) * 2 powi (- 52)"
    using assms by (rule inches_bounds)
  show "(area (FNum s m) = FInf False \<and> 34 * 10 ^ 37 \<le> area_spec (valof (FNum s m))) \<or>
          (\<exists>a. area (FNum s m) = FNum False a \<and>
             \<bar>a - area_spec (valof (FNum s m))\<bar>
               \<le> area_spec (valof (FNum s m)) * 2 powi (- 23) + 2 powi (- 150))"
    unfolding area_spec_valof using assms by (rule area_bounds)
  show "stdout (main1 r0 (Num l # inp)) = prompt @ area_line (area (FNum s m))"
    using main1_reads[of r0 l inp] by (simp only: assms)
next
  assume r: "fne0 r" and pre: "\<forall>k\<in>set pre. fne0 (strtof k)" and m: "m \<noteq> 0"
    and post: "\<forall>k\<in>set post. fne0 (strtof k)" and z: "fne0 (strtof z) = False"
  have all: "\<forall>k\<in>set (pre @ l # post). fne0 (strtof k)"
    using pre post m assms by (auto simp del: strtof.simps)
  have "\<not> fne0 (strtof z)" using z by simp
  from main3_run[OF r all this, of inp]
  show "main3 r (map Num pre @ Num l # map Num post @ Num z # inp) =
      Some \<lparr>stdout = concat (map pass_text pre) @
               prompt @ area_line (area (FNum s m)) @
               circ_line (circumference (FNum s m)) @
               concat (map pass_text (post @ [z])),
            stdin = inp, status = 0\<rparr>"
    by (simp add: assms del: strtof.simps)
next
  assume r: "fne0 r" and pre: "\<forall>k\<in>set pre. fne0 (strtof k)" and m: "m = 0"
  have "\<not> fne0 (strtof l)" using m assms by simp
  from main3_run[OF r pre this, of inp]
  show "main3 r (map Num pre @ Num l # inp) =
      Some \<lparr>stdout = concat (map pass_text pre) @
               prompt @ area_line (area (FNum s m)) @
               circ_line (circumference (FNum s m)),
            stdin = inp, status = 0\<rparr>"
    by (simp add: assms del: strtof.simps)
next
  assume "fne0 r"
  from loop3_reads[OF this, of l inp out]
  show "loop3 r (Num l # inp) out =
      loop3 (FNum s m) inp
        (out @ prompt @ area_line (area (FNum s m)) @ circ_line (circumference (FNum s m)))"
    by (simp only: assms)
qed

text \<open>
  The radius 2.54 satisfies the hypothesis of the amended C1: the bound holds of the area
  computed from it, and the run of the second program on the radii 2.54 and 0 prints it.
\<close>

theorem area_refines_spec_witness:
  "strtof (Dec False 254 (- 2)) = FNum False (2663383 / 1048576) \<and>
   area (FNum False (2663383 / 1048576)) = FNum False (13176783 / 4194304) \<and>
   \<bar>13176783 / 4194304 - area_spec (2663383 / 1048576)\<bar>
     \<le> area_spec (2663383 / 1048576) * 2 powi (- 23) + 2 powi (- 150) \<and>
   main3 (FNum False 1) [Num (Dec False 254 (- 2)), Num (Dec False 0 0)] =
     Some \<lparr>stdout = ''Enter radius (in cm):'' @ nl @
                    ''Circle's area is 3.14 (sq in).'' @ nl @
                    ''Its circumference is 6.28 (in).'' @ nl @
                    ''Enter radius (in cm):'' @ nl @
                    ''Circle's area is 0.00 (sq in).'' @ nl @
                    ''Its circumference is 0.00 (in).'' @ nl,
           stdin = [], status = 0\<rparr>"
proof -
  note inst = area_refines_spec[OF strtof_254, where r = "FNum False 1" and pre = "[]"
      and post = "[]" and z = "Dec False 0 0" and inp = "[]"]
  have "\<exists>a. FNum False (13176783 / 4194304) = FNum False a \<and>
      \<bar>a - area_spec (2663383 / 1048576)\<bar>
        \<le> area_spec (2663383 / 1048576) * 2 powi (- 23) + 2 powi (- 150)"
    using inst unfolding area_254f area_spec_valof by blast
  hence bound: "\<bar>13176783 / 4194304 - area_spec (2663383 / 1048576)\<bar>
      \<le> area_spec (2663383 / 1048576) * 2 powi (- 23) + 2 powi (- 150)"
    by (metis fp.inject(3))
  have z: "strtof (Dec False 0 0) = FNum False 0" by (simp add: round32_zero)
  have "main3 (FNum False 1) (map Num [] @ Num (Dec False 254 (- 2)) # map Num [] @
        Num (Dec False 0 0) # []) =
      Some \<lparr>stdout = concat (map pass_text []) @
               prompt @ area_line (area (FNum False (2663383 / 1048576))) @
               circ_line (circumference (FNum False (2663383 / 1048576))) @
               concat (map pass_text ([] @ [Dec False 0 0])),
            stdin = [], status = 0\<rparr>"
    using inst z by (simp del: strtof.simps)
  hence run: "main3 (FNum False 1) [Num (Dec False 254 (- 2)), Num (Dec False 0 0)] =
     Some \<lparr>stdout = ''Enter radius (in cm):'' @ nl @
                    ''Circle's area is 3.14 (sq in).'' @ nl @
                    ''Its circumference is 6.28 (in).'' @ nl @
                    ''Enter radius (in cm):'' @ nl @
                    ''Circle's area is 0.00 (sq in).'' @ nl @
                    ''Its circumference is 0.00 (in).'' @ nl,
           stdin = [], status = 0\<rparr>"
    unfolding area_254f circumference_254f
    by (simp add: z area_zero circumference_zero area_line_zero circ_line_zero area_line_314
        circ_line_628 prompt_def sign_str_def del: strtof.simps)
  show ?thesis using strtof_254 area_254f bound run by blast
qed

text \<open>
  C2, as stated, fails: the radius 3e38 is read as a finite \<^verbatim>\<open>float\<close>, the formula gives
  a circumference below \<open>8 * 10 ^ 38\<close>, and the circumference the second program computes
  and prints is the infinity.
\<close>

theorem circumference_overflows:
  "strtof (Dec False 3 38) = FNum False 300000000549775575777803994281145270272 \<and>
   circumference (FNum False 300000000549775575777803994281145270272) = FInf False \<and>
   circumference_spec 300000000549775575777803994281145270272 < 8 * 10 ^ 38 \<and>
   main3 (FNum False 1) [Num (Dec False 3 38), Num (Dec False 0 0)] =
     Some \<lparr>stdout = ''Enter radius (in cm):'' @ [CHR 0x0A] @
                    ''Circle's area is inf (sq in).'' @ [CHR 0x0A] @
                    ''Its circumference is inf (in).'' @ [CHR 0x0A] @
                    ''Enter radius (in cm):'' @ [CHR 0x0A] @
                    ''Circle's area is 0.00 (sq in).'' @ [CHR 0x0A] @
                    ''Its circumference is 0.00 (in).'' @ [CHR 0x0A],
           stdin = [], status = 0\<rparr>"
proof (intro conjI)
  show "strtof (Dec False 3 38) = FNum False 300000000549775575777803994281145270272"
    by (rule strtof_3e38)
  show "circumference (FNum False 300000000549775575777803994281145270272) = FInf False"
    by (rule circumference_3e38f)
  show "circumference_spec 300000000549775575777803994281145270272 < 8 * 10 ^ 38"
    by (simp add: circumference_spec_def)
  have z: "strtof (Dec False 0 0) = FNum False 0" by (simp add: round32_zero)
  have "main3 (FNum False 1) (map Num [Dec False 3 38] @ Num (Dec False 0 0) # []) =
      Some \<lparr>stdout = concat (map pass_text ([Dec False 3 38] @ [Dec False 0 0])),
            stdin = [], status = 0\<rparr>"
    by (rule main3_run) (simp_all add: strtof_3e38 z del: strtof.simps)
  thus "main3 (FNum False 1) [Num (Dec False 3 38), Num (Dec False 0 0)] =
     Some \<lparr>stdout = ''Enter radius (in cm):'' @ [CHR 0x0A] @
                    ''Circle's area is inf (sq in).'' @ [CHR 0x0A] @
                    ''Its circumference is inf (in).'' @ [CHR 0x0A] @
                    ''Enter radius (in cm):'' @ [CHR 0x0A] @
                    ''Circle's area is 0.00 (sq in).'' @ [CHR 0x0A] @
                    ''Its circumference is 0.00 (in).'' @ [CHR 0x0A],
           stdin = [], status = 0\<rparr>"
    by (simp add: strtof_3e38 z area_3e38f circumference_3e38f area_zero circumference_zero
        area_line_inf circ_line_inf area_line_zero circ_line_zero prompt_def nl_def sign_str_def
        del: strtof.simps)
qed

text \<open>
  C2, amended. For the finite radius read, the circumference is
  \<open>2 * 3.14159 * (r / 2.54)\<close>, sign included, up to a relative error of \<open>2 powi (- 23)\<close> and
  an absolute error of \<open>2 powi (- 150)\<close>, unless it overflows to the infinity of that sign,
  which happens only when the exact value is at least \<open>34 * 10 ^ 37\<close> in magnitude. The
  circumference of an infinite radius is that infinity, and that of a NaN is the NaN. The
  second program prints this circumference in the pass that reads the radius, in every
  run that is entered and is fed numerals up to one whose value is zero; such a run ends,
  and its whole output is given. The first program writes the prompt and the area line
  and nothing else: it has no circumference.
\<close>

theorem circumference_refines_spec:
  assumes "strtof l = FNum s m"
  shows "((circumference (FNum s m) = FInf s \<and>
            34 * 10 ^ 37 \<le> \<bar>circumference_spec (valof (FNum s m))\<bar>) \<or>
          (\<exists>c. circumference (FNum s m) = FNum s c \<and>
             \<bar>valof (FNum s c) - circumference_spec (valof (FNum s m))\<bar>
               \<le> \<bar>circumference_spec (valof (FNum s m))\<bar> * 2 powi (- 23) + 2 powi (- 150))) \<and>
         (fne0 r \<longrightarrow> (\<forall>k\<in>set pre. fne0 (strtof k)) \<longrightarrow> m \<noteq> 0 \<longrightarrow>
          (\<forall>k\<in>set post. fne0 (strtof k)) \<longrightarrow> fne0 (strtof z) = False \<longrightarrow>
            main3 r (map Num pre @ Num l # map Num post @ Num z # inp) =
              Some \<lparr>stdout = concat (map pass_text pre) @
                       prompt @ area_line (area (FNum s m)) @
                       circ_line (circumference (FNum s m)) @
                       concat (map pass_text (post @ [z])),
                    stdin = inp, status = 0\<rparr>) \<and>
         (fne0 r \<longrightarrow> (\<forall>k\<in>set pre. fne0 (strtof k)) \<longrightarrow> m = 0 \<longrightarrow>
            main3 r (map Num pre @ Num l # inp) =
              Some \<lparr>stdout = concat (map pass_text pre) @
                       prompt @ area_line (area (FNum s m)) @
                       circ_line (circumference (FNum s m)),
                    stdin = inp, status = 0\<rparr>) \<and>
         (fne0 r \<longrightarrow>
            loop3 r (Num l # inp) out =
              loop3 (FNum s m) inp
                (out @ prompt @ area_line (area (FNum s m)) @
                 circ_line (circumference (FNum s m)))) \<and>
         stdout (main1 r0 (Num l # inp)) = prompt @ area_line (area (FNum s m)) \<and>
         circumference (FInf t) = FInf t \<and> circumference (FNan t) = FNan t"
proof (intro conjI impI)
  show "circumference (FInf t) = FInf t" by (rule circumference_of_inf)
  show "circumference (FNan t) = FNan t" by (rule circumference_of_nan)
  have m0: "0 \<le> m" using strtof_range[OF assms] zero_less_power_int[of "2::rat" "- 149"]
    by (auto intro: order_trans less_imp_le)
  have abs_spec: "\<bar>circumference_spec (valof (FNum s m))\<bar> = circumference_spec m"
  proof -
    have "0 \<le> circumference_spec m" using m0 by (simp add: circumference_spec_def)
    moreover have "circumference_spec (- m) = - circumference_spec m"
      by (simp add: circumference_spec_def)
    ultimately show ?thesis by simp
  qed
  show "(circumference (FNum s m) = FInf s \<and>
            34 * 10 ^ 37 \<le> \<bar>circumference_spec (valof (FNum s m))\<bar>) \<or>
          (\<exists>c. circumference (FNum s m) = FNum s c \<and>
             \<bar>valof (FNum s c) - circumference_spec (valof (FNum s m))\<bar>
               \<le> \<bar>circumference_spec (valof (FNum s m))\<bar> * 2 powi (- 23) + 2 powi (- 150))"
    unfolding abs_spec circumference_spec_valof using assms by (rule circumference_bounds)
  show "stdout (main1 r0 (Num l # inp)) = prompt @ area_line (area (FNum s m))"
    using main1_reads[of r0 l inp] by (simp only: assms)
next
  assume r: "fne0 r" and pre: "\<forall>k\<in>set pre. fne0 (strtof k)" and m: "m \<noteq> 0"
    and post: "\<forall>k\<in>set post. fne0 (strtof k)" and z: "fne0 (strtof z) = False"
  have all: "\<forall>k\<in>set (pre @ l # post). fne0 (strtof k)"
    using pre post m assms by (auto simp del: strtof.simps)
  have "\<not> fne0 (strtof z)" using z by simp
  from main3_run[OF r all this, of inp]
  show "main3 r (map Num pre @ Num l # map Num post @ Num z # inp) =
      Some \<lparr>stdout = concat (map pass_text pre) @
               prompt @ area_line (area (FNum s m)) @
               circ_line (circumference (FNum s m)) @
               concat (map pass_text (post @ [z])),
            stdin = inp, status = 0\<rparr>"
    by (simp add: assms del: strtof.simps)
next
  assume r: "fne0 r" and pre: "\<forall>k\<in>set pre. fne0 (strtof k)" and m: "m = 0"
  have "\<not> fne0 (strtof l)" using m assms by simp
  from main3_run[OF r pre this, of inp]
  show "main3 r (map Num pre @ Num l # inp) =
      Some \<lparr>stdout = concat (map pass_text pre) @
               prompt @ area_line (area (FNum s m)) @
               circ_line (circumference (FNum s m)),
            stdin = inp, status = 0\<rparr>"
    by (simp add: assms del: strtof.simps)
next
  assume "fne0 r"
  from loop3_reads[OF this, of l inp out]
  show "loop3 r (Num l # inp) out =
      loop3 (FNum s m) inp
        (out @ prompt @ area_line (area (FNum s m)) @ circ_line (circumference (FNum s m)))"
    by (simp only: assms)
qed

text \<open>
  The radius 5.08 satisfies the hypothesis of the amended C2: the bound holds of the
  circumference computed from it, and the run of the second program on the radii 5.08 and
  -0, started with an infinity in \<^verbatim>\<open>r\<close>, prints it.
\<close>

theorem circumference_refines_spec_witness:
  "strtof (Dec False 508 (- 2)) = FNum False (2663383 / 524288) \<and>
   circumference (FNum False (2663383 / 524288)) = FNum False (13176783 / 1048576) \<and>
   \<bar>13176783 / 1048576 - circumference_spec (2663383 / 524288)\<bar>
     \<le> circumference_spec (2663383 / 524288) * 2 powi (- 23) + 2 powi (- 150) \<and>
   main3 (FInf False) [Num (Dec False 508 (- 2)), Num (Dec True 0 0), Junk] =
     Some \<lparr>stdout = ''Enter radius (in cm):'' @ nl @
                    ''Circle's area is 12.57 (sq in).'' @ nl @
                    ''Its circumference is 12.57 (in).'' @ nl @
                    ''Enter radius (in cm):'' @ nl @
                    ''Circle's area is 0.00 (sq in).'' @ nl @
                    ''Its circumference is -0.00 (in).'' @ nl,
           stdin = [Junk], status = 0\<rparr>"
proof -
  note inst = circumference_refines_spec[OF strtof_508, where r = "FInf False" and pre = "[]"
      and post = "[]" and z = "Dec True 0 0" and inp = "[Junk]"]
  have "\<exists>c. FNum False (13176783 / 1048576) = FNum False c \<and>
      \<bar>valof (FNum False c) - circumference_spec (valof (FNum False (2663383 / 524288)))\<bar>
        \<le> \<bar>circumference_spec (valof (FNum False (2663383 / 524288)))\<bar> * 2 powi (- 23)
          + 2 powi (- 150)"
    using inst unfolding circumference_508f by blast
  hence "\<bar>valof (FNum False (13176783 / 1048576)) -
        circumference_spec (valof (FNum False (2663383 / 524288)))\<bar>
      \<le> \<bar>circumference_spec (valof (FNum False (2663383 / 524288)))\<bar> * 2 powi (- 23)
          + 2 powi (- 150)"
    by (metis fp.inject(3))
  moreover have "\<bar>circumference_spec (2663383 / 524288)\<bar> = circumference_spec (2663383 / 524288)"
    by (simp add: circumference_spec_def)
  ultimately have bound: "\<bar>13176783 / 1048576 - circumference_spec (2663383 / 524288)\<bar>
     \<le> circumference_spec (2663383 / 524288) * 2 powi (- 23) + 2 powi (- 150)"
    by (simp only: valof.simps if_False)
  have z: "strtof (Dec True 0 0) = FNum True 0" by (simp add: round32_zero)
  have "main3 (FInf False) (map Num [] @ Num (Dec False 508 (- 2)) # map Num [] @
        Num (Dec True 0 0) # [Junk]) =
      Some \<lparr>stdout = concat (map pass_text []) @
               prompt @ area_line (area (FNum False (2663383 / 524288))) @
               circ_line (circumference (FNum False (2663383 / 524288))) @
               concat (map pass_text ([] @ [Dec True 0 0])),
            stdin = [Junk], status = 0\<rparr>"
    using inst z by (simp del: strtof.simps)
  hence run: "main3 (FInf False) [Num (Dec False 508 (- 2)), Num (Dec True 0 0), Junk] =
     Some \<lparr>stdout = ''Enter radius (in cm):'' @ nl @
                    ''Circle's area is 12.57 (sq in).'' @ nl @
                    ''Its circumference is 12.57 (in).'' @ nl @
                    ''Enter radius (in cm):'' @ nl @
                    ''Circle's area is 0.00 (sq in).'' @ nl @
                    ''Its circumference is -0.00 (in).'' @ nl,
           stdin = [Junk], status = 0\<rparr>"
    unfolding area_508f circumference_508f
    by (simp add: z area_zero circumference_zero area_line_zero circ_line_zero area_line_1257
        circ_line_1257 prompt_def sign_str_def del: strtof.simps)
  show ?thesis using strtof_508 circumference_508f bound run by blast
qed

subsection \<open>The loop of the second program\<close>

text \<open>
  C3, as stated, fails: started with a non-zero \<^verbatim>\<open>r\<close> and given the radius 0, the second
  program writes both result lines for that radius before it ends.
\<close>

theorem main3_prints_for_zero:
  "main3 (FNum False 1) [Num (Dec False 0 0)] =
     Some \<lparr>stdout = ''Enter radius (in cm):'' @ [CHR 0x0A] @
                    ''Circle's area is 0.00 (sq in).'' @ [CHR 0x0A] @
                    ''Its circumference is 0.00 (in).'' @ [CHR 0x0A],
           stdin = [], status = 0\<rparr>"
proof -
  have "loop3 (FNum False 1) [Num (Dec False 0 0)] [] =
      loop3 (FNum False 0) [] (prompt @ area_line (FNum False 0) @ circ_line (FNum False 0))"
    by (subst loop3.simps) (simp add: round32_zero area_zero circumference_zero)
  also have "\<dots> = Some \<lparr>stdout = prompt @ area_line (FNum False 0) @ circ_line (FNum False 0),
      stdin = [], status = 0\<rparr>"
    by (rule loop3_exit) simp
  finally show ?thesis
    by (simp add: main3_def prompt_def area_line_def circ_line_def nl_def fixed_2_zero pad_def sign_str_def)
qed

text \<open>
  C3, amended. When the loop is entered and the radius read is a zero, the body still
  completes: the area line and the circumference line for that radius are written (0.00,
  the circumference with the sign of the zero read), and then the program ends with
  status 0, having read nothing further. Reading a zero is the only way the entered loop
  ends: a run that ends has met a numeral whose value is zero.
\<close>

theorem loop3_reads_zero:
  assumes "fne0 r" and "strtof l = FNum s 0"
  shows "loop3 r (Num l # inp) out =
      Some \<lparr>stdout = out @ prompt @ ''Circle's area is 0.00 (sq in).'' @ nl @
                      ''Its circumference is '' @ sign_str s @ ''0.00 (in).'' @ nl,
            stdin = inp, status = 0\<rparr> \<and>
    (\<forall>inp' out' res. loop3 r inp' out' = Some res \<longrightarrow>
       (\<exists>l'. Num l' \<in> set inp' \<and> fne0 (strtof l') = False))"
proof
  have "loop3 r (Num l # inp) out =
      loop3 (FNum s 0) inp (out @ prompt @ area_line (FNum False 0) @ circ_line (FNum s 0))"
    using assms by (subst loop3.simps) (simp add: area_zero circumference_zero)
  also have "\<dots> = Some \<lparr>stdout = out @ prompt @ area_line (FNum False 0) @ circ_line (FNum s 0),
      stdin = inp, status = 0\<rparr>"
    by (rule loop3_exit) simp
  finally show "loop3 r (Num l # inp) out =
      Some \<lparr>stdout = out @ prompt @ ''Circle's area is 0.00 (sq in).'' @ nl @
                      ''Its circumference is '' @ sign_str s @ ''0.00 (in).'' @ nl,
            stdin = inp, status = 0\<rparr>"
    by (simp add: area_line_def circ_line_def fixed_2_zero pad_def sign_str_def)
next
  show "\<forall>inp' out' res. loop3 r inp' out' = Some res \<longrightarrow>
       (\<exists>l'. Num l' \<in> set inp' \<and> fne0 (strtof l') = False)"
    using loop3_ends_on_zero assms(1) by blast
qed

text \<open>
  The hypotheses of the amended C3 hold of a NaN in \<^verbatim>\<open>r\<close> and the numeral \<^verbatim>\<open>-0e3\<close>.
\<close>

theorem loop3_reads_zero_witness:
  "fne0 (FNan True) \<and> strtof (Dec True 0 3) = FNum True 0 \<and>
   loop3 (FNan True) [Num (Dec True 0 3), Junk] ''x'' =
      Some \<lparr>stdout = ''x'' @ prompt @ ''Circle's area is 0.00 (sq in).'' @ nl @
                      ''Its circumference is -0.00 (in).'' @ nl,
            stdin = [Junk], status = 0\<rparr>"
  using loop3_reads_zero[of "FNan True" "Dec True 0 3" True "[Junk]" "''x''"]
  by (simp add: round32_zero sign_str_def)

text \<open>
  C4. The second program tests \<^verbatim>\<open>r != 0\<close> before it has read anything. When the value
  \<^verbatim>\<open>r\<close> happens to hold is zero, it ends at once, having written nothing and read nothing;
  when it is not zero, the body runs: the run is the loop continued after one pass of the
  body, and a run that ends has the prompt at the head of its output.
\<close>

theorem main3_entry:
  "(\<not> fne0 r0 \<longrightarrow> main3 r0 inp = Some \<lparr>stdout = [], stdin = inp, status = 0\<rparr>) \<and>
   (fne0 r0 \<longrightarrow>
      main3 r0 inp =
        loop3 (fst (scanf_f r0 inp)) (snd (scanf_f r0 inp))
          (prompt @ area_line (area (fst (scanf_f r0 inp))) @
           circ_line (circumference (fst (scanf_f r0 inp)))) \<and>
      (\<forall>res. main3 r0 inp = Some res \<longrightarrow> (\<exists>more. stdout res = prompt @ more)))"
proof (intro conjI impI allI)
  assume "\<not> fne0 r0"
  thus "main3 r0 inp = Some \<lparr>stdout = [], stdin = inp, status = 0\<rparr>"
    by (simp add: main3_def loop3_exit)
next
  assume nz: "fne0 r0"
  thus step: "main3 r0 inp =
        loop3 (fst (scanf_f r0 inp)) (snd (scanf_f r0 inp))
          (prompt @ area_line (area (fst (scanf_f r0 inp))) @
           circ_line (circumference (fst (scanf_f r0 inp))))"
    using loop3_step[of r0 inp "[]"] by (simp add: main3_def)
  fix res
  assume "main3 r0 inp = Some res"
  with step obtain more where
    "stdout res = (prompt @ area_line (area (fst (scanf_f r0 inp))) @
           circ_line (circumference (fst (scanf_f r0 inp)))) @ more"
    using loop3_extends by metis
  thus "\<exists>more. stdout res = prompt @ more" by simp
qed

text \<open>
  Both cases of C4 occur: a zero in \<^verbatim>\<open>r\<close>, and a one in \<^verbatim>\<open>r\<close> followed by the radius 0.
\<close>

theorem main3_entry_witness:
  "main3 (FNum False 0) [Num (Dec False 1 0)] =
     Some \<lparr>stdout = [], stdin = [Num (Dec False 1 0)], status = 0\<rparr> \<and>
   main3 (FNum False 1) [Num (Dec False 0 0), Junk] =
     Some \<lparr>stdout = prompt @ area_line (FNum False 0) @ circ_line (FNum False 0),
           stdin = [Junk], status = 0\<rparr>"
  using main3_entry[of "FNum False 0" "[Num (Dec False 1 0)]"]
    main3_entry[of "FNum False 1" "[Num (Dec False 0 0), Junk]"]
  by (simp add: round32_zero area_zero circumference_zero loop3_exit)

subsection \<open>The first program\<close>

text \<open>
  C5. For every initial value of \<^verbatim>\<open>r\<close> and every standard input, numeral or not, the first
  program ends with status 0 after one pass: it has applied \<^verbatim>\<open>scanf\<close> once, and has
  written the prompt and one area line, two lines in all.
\<close>

theorem main1_single_pass:
  "status (main1 r0 inp) = 0 \<and>
   stdin (main1 r0 inp) = snd (scanf_f r0 inp) \<and>
   stdout (main1 r0 inp) = prompt @ area_line (area (fst (scanf_f r0 inp))) \<and>
   count_list (stdout (main1 r0 inp)) (CHR 0x0A) = 2"
  by (simp add: main1_def count_nl_prompt count_nl_area_line split: prod.splits)

subsection \<open>Values\<close>

text \<open>
  C6. The radius 2.54 is read as the \<^verbatim>\<open>float\<close> nearest to it; the area computed from it is
  within 0.01 of 3.14159 and is printed as 3.14. For the radius 5.08 the area and the
  circumference computed are within 0.01 of 12.57 and are both printed as 12.57, as the
  run of the second program on the radii 5.08 and 0 shows.
\<close>

theorem tabulated_values:
  "area (strtof (Dec False 254 (- 2))) = FNum False (13176783 / 4194304) \<and>
   \<bar>valof (area (strtof (Dec False 254 (- 2)))) - 314159 / 100000\<bar> \<le> 1 / 100 \<and>
   printf_f 3 2 (area (strtof (Dec False 254 (- 2)))) = ''3.14'' \<and>
   area (strtof (Dec False 508 (- 2))) = FNum False (13176783 / 1048576) \<and>
   \<bar>valof (area (strtof (Dec False 508 (- 2)))) - 1257 / 100\<bar> \<le> 1 / 100 \<and>
   printf_f 3 2 (area (strtof (Dec False 508 (- 2)))) = ''12.57'' \<and>
   circumference (strtof (Dec False 508 (- 2))) = FNum False (13176783 / 1048576) \<and>
   \<bar>valof (circumference (strtof (Dec False 508 (- 2)))) - 1257 / 100\<bar> \<le> 1 / 100 \<and>
   printf_f 3 2 (circumference (strtof (Dec False 508 (- 2)))) = ''12.57'' \<and>
   stdout (main1 r0 (Num (Dec False 254 (- 2)) # inp)) =
     ''Enter radius (in cm):'' @ nl @ ''Circle's area is 3.14 (sq in).'' @ nl \<and>
   main3 (FNum False 1) [Num (Dec False 508 (- 2)), Num (Dec False 0 0)] =
     Some \<lparr>stdout = ''Enter radius (in cm):'' @ nl @
                    ''Circle's area is 12.57 (sq in).'' @ nl @
                    ''Its circumference is 12.57 (in).'' @ nl @
                    ''Enter radius (in cm):'' @ nl @
                    ''Circle's area is 0.00 (sq in).'' @ nl @
                    ''Its circumference is 0.00 (in).'' @ nl,
           stdin = [], status = 0\<rparr>"
proof -
  have out: "stdout (main1 r0 (Num (Dec False 254 (- 2)) # inp)) =
      prompt @ area_line (area (strtof (Dec False 254 (- 2))))"
    by (rule main1_reads)
  show ?thesis
    unfolding out strtof_254 strtof_508 area_254f area_508f circumference_508f
      printf_314 printf_1257 run3_508
    by (simp add: prompt_def area_line_def printf_314 del: printf_f.simps)
qed

text \<open>
  C7. For the finite radius read, of magnitude \<open>m\<close>, the conversion to inches followed by
  the multiplication by \<^verbatim>\<open>CM\<close> gives a finite number of the same sign within
  \<open>m * 2 powi (- 51)\<close> of \<open>m\<close>; an infinite radius is given back as it is.
\<close>

theorem round_trip_tolerance:
  assumes "strtof l = FNum s m"
  shows "(\<exists>b. back_to_cm (inches (FNum s m)) = FNum s b \<and> \<bar>b - m\<bar> \<le> m * 2 powi (- 51)) \<and>
         back_to_cm (inches (FInf t)) = FInf t"
  using round_trip_bounds[OF assms] by (simp add: inches_def back_to_cm_def CM_val)

text \<open>
  The radius 2.54 satisfies the hypothesis of C7.
\<close>

theorem round_trip_tolerance_witness:
  "strtof (Dec False 254 (- 2)) = FNum False (2663383 / 1048576) \<and>
   (\<exists>b. back_to_cm (inches (FNum False (2663383 / 1048576))) = FNum False b \<and>
        \<bar>b - 2663383 / 1048576\<bar> \<le> 2663383 / 1048576 * 2 powi (- 51))"
  using round_trip_tolerance[OF strtof_254] strtof_254 by blast

text \<open>
  C8. When the radius compares greater than or equal to zero (so it is no NaN), so do
  the area and the circumference computed from it, and neither is a NaN. The area never
  has its sign bit set; the circumference has the sign bit of the radius, so it is the
  negative zero when the radius is.
\<close>

theorem nonnegative_results:
  assumes "fge0 r"
  shows "fge0 (area r) \<and> fge0 (circumference r) \<and>
         sign_of (area r) = False \<and> sign_of (circumference r) = sign_of r \<and>
         is_nan (area r) = False \<and> is_nan (circumference r) = False"
proof (cases r)
  case (FNan s)
  with assms show ?thesis by simp
next
  case (FInf s)
  with assms show ?thesis by (simp add: area_of_inf circumference_of_inf)
next
  case (FNum s m)
  show ?thesis
  proof (cases s)
    case True
    with assms FNum have "m = 0" by simp
    with FNum show ?thesis by (simp add: area_zero circumference_zero)
  next
    case False
    with FNum area_sign[of s m] circumference_sign[of s m] show ?thesis by auto
  qed
qed

text \<open>
  The \<^verbatim>\<open>float\<close> nearest to 5.08 satisfies the hypothesis of C8.
\<close>

theorem nonnegative_results_witness:
  "fge0 (FNum False (2663383 / 524288)) \<and>
   fge0 (FNum False (13176783 / 1048576)) \<and>
   sign_of (circumference (FNum False (2663383 / 524288))) = False"
  using nonnegative_results[of "FNum False (2663383 / 524288)"]
  unfolding area_508f circumference_508f by simp

subsection \<open>The text written\<close>

text \<open>
  C9, as stated, fails: the radius 1e20 is an ordinary \<^verbatim>\<open>float\<close>, the area computed from it
  exceeds the range of \<^verbatim>\<open>float\<close>, and the first program prints it as \<^verbatim>\<open>inf\<close>, with no
  decimal point and no digit; the input \<^verbatim>\<open>inf\<close> is printed the same way.
\<close>

theorem prints_inf:
  "stdout (main1 (FNum False 0) [Num (Dec False 1 20)]) =
     ''Enter radius (in cm):'' @ [CHR 0x0A] @ ''Circle's area is inf (sq in).'' @ [CHR 0x0A] \<and>
   stdout (main1 (FNum False 0) [Num (InfLit False)]) =
     ''Enter radius (in cm):'' @ [CHR 0x0A] @ ''Circle's area is inf (sq in).'' @ [CHR 0x0A]"
proof -
  have "stdout (main1 (FNum False 0) [Num (Dec False 1 20)]) =
      prompt @ area_line (area (strtof (Dec False 1 20)))"
    by (rule main1_reads)
  moreover have "stdout (main1 (FNum False 0) [Num (InfLit False)]) =
      prompt @ area_line (area (strtof (InfLit False)))"
    by (rule main1_reads)
  moreover have "area (strtof (Dec False 1 20)) = FInf False"
    by (simp only: strtof_1e20 area_1e20f)
  moreover have "area (strtof (InfLit False)) = FInf False"
    by (simp add: area_of_inf)
  ultimately show ?thesis
    by (simp add: prompt_def area_line_def nl_def pad_def sign_str_def del: strtof.simps)
qed

text \<open>
  C9, amended. A finite value is printed with its sign, at least one digit, a point and
  exactly two digits; an infinity is printed as \<^verbatim>\<open>inf\<close> and a NaN as \<^verbatim>\<open>nan\<close>, after their
  sign. The first program writes the prompt \<^verbatim>\<open>Enter radius (in cm):\<close> and the line
  \<^verbatim>\<open>Circle's area is X (sq in).\<close>; each pass of the second program's loop writes the
  prompt, that line and the line \<^verbatim>\<open>Its circumference is X (in).\<close>, where X is the printed
  value.
\<close>

theorem output_format:
  "(\<exists>ip d1 d2. printf_f 3 2 (FNum s m) = sign_str s @ ip @ [CHR ''.'', d1, d2] \<and>
      ip \<noteq> [] \<and> list_all is_digit ip \<and> is_digit d1 \<and> is_digit d2) \<and>
   printf_f 3 2 (FInf s) = sign_str s @ ''inf'' \<and>
   printf_f 3 2 (FNan s) = sign_str s @ ''nan'' \<and>
   stdout (main1 r0 inp) =
     ''Enter radius (in cm):'' @ nl @
     ''Circle's area is '' @ printf_f 3 2 (area (fst (scanf_f r0 inp))) @ '' (sq in).'' @ nl \<and>
   (fne0 r \<longrightarrow>
      loop3 r inp out =
        loop3 (fst (scanf_f r inp)) (snd (scanf_f r inp))
          (out @ ''Enter radius (in cm):'' @ nl @
           ''Circle's area is '' @ printf_f 3 2 (area (fst (scanf_f r inp))) @
           '' (sq in).'' @ nl @
           ''Its circumference is '' @ printf_f 3 2 (circumference (fst (scanf_f r inp))) @
           '' (in).'' @ nl))"
proof (intro conjI impI)
  show "\<exists>ip d1 d2. printf_f 3 2 (FNum s m) = sign_str s @ ip @ [CHR ''.'', d1, d2] \<and>
      ip \<noteq> [] \<and> list_all is_digit ip \<and> is_digit d1 \<and> is_digit d2"
    unfolding printf_finite using fixed_2_digits[of m] by auto
  show "printf_f 3 2 (FInf s) = sign_str s @ ''inf''"
    by (simp add: pad_def sign_str_def)
  show "printf_f 3 2 (FNan s) = sign_str s @ ''nan''"
    by (simp add: pad_def sign_str_def)
  show "stdout (main1 r0 inp) =
     ''Enter radius (in cm):'' @ nl @
     ''Circle's area is '' @ printf_f 3 2 (area (fst (scanf_f r0 inp))) @ '' (sq in).'' @ nl"
    by (simp add: main1_stdout prompt_def area_line_def)
next
  assume "fne0 r"
  from loop3_step[OF this, of inp out]
  show "loop3 r inp out =
        loop3 (fst (scanf_f r inp)) (snd (scanf_f r inp))
          (out @ ''Enter radius (in cm):'' @ nl @
           ''Circle's area is '' @ printf_f 3 2 (area (fst (scanf_f r inp))) @
           '' (sq in).'' @ nl @
           ''Its circumference is '' @ printf_f 3 2 (circumference (fst (scanf_f r inp))) @
           '' (in).'' @ nl)"
    by (simp add: prompt_def area_line_def circ_line_def)
qed

text \<open>
  The last part of the amended C9 applies to an infinity in \<^verbatim>\<open>r\<close> followed by the
  radius 0.
\<close>

theorem output_format_witness:
  "fne0 (FInf True) \<and>
   loop3 (FInf True) [Num (Dec False 0 1)] [] =
     Some \<lparr>stdout = ''Enter radius (in cm):'' @ nl @ ''Circle's area is 0.00 (sq in).'' @ nl @
                     ''Its circumference is 0.00 (in).'' @ nl,
           stdin = [], status = 0\<rparr>"
  using output_format[where r = "FInf True" and inp = "[Num (Dec False 0 1)]" and out = "[]"]
  by (simp add: round32_zero area_zero circumference_zero loop3_exit fixed_2_zero pad_def
      sign_str_def)

text \<open>
  C10. Given a numeral on standard input, what the first program writes is fixed by that
  numeral: it is the same for every initial value of \<^verbatim>\<open>r\<close> and every continuation of the
  input, namely the prompt and the area line of the value read.
\<close>

theorem main1_deterministic:
  "stdout (main1 r0 (Num l # inp)) = stdout (main1 r0' (Num l # inp')) \<and>
   stdout (main1 r0 (Num l # inp)) = prompt @ area_line (area (strtof l))"
  by (simp add: main1_def)

end
